theory Spec2Isabelle
  imports Main "HOL-Library.AList" "HOL-Library.Sublist"
begin

section \<open>The check runner of \<^verbatim>\<open>abstract-check-runner.ts\<close>\<close>

text \<open>
  A shallow embedding of the class \<^verbatim>\<open>AbstractCheckRunner\<close>. Every method is a function
  on an explicit state; the state holds the fields of the object, the closures of the
  listeners it registers on itself, the timers it has pending in the event loop and the
  trace of the events it has emitted. Exceptions are values.
\<close>

subsection \<open>JavaScript values\<close>

type_synonym CheckRunId = string

text \<open>
  A decoded message is the result of \<^verbatim>\<open>JSON.parse\<close>; properties the source reads may be
  missing, which JavaScript reports as \<^verbatim>\<open>undefined\<close>. Objects are association lists with
  distinct keys, in insertion order. Numbers are the integer-valued ones: the source only
  tests numbers for truthiness.
\<close>

datatype jsval =
    JUndefined
  | JNull
  | JBool bool
  | JNum int
  | JStr string
  | JArr "jsval list"
  | JObj "(string \<times> jsval) list"

datatype exn =
    TypeError
  | Rejected string

fun truthy :: "jsval \<Rightarrow> bool" where
  "truthy JUndefined = False"
| "truthy JNull = False"
| "truthy (JBool b) = b"
| "truthy (JNum n) = (n \<noteq> 0)"
| "truthy (JStr s) = (s \<noteq> [])"
| "truthy (JArr xs) = True"
| "truthy (JObj kvs) = True"

text \<open>
  Reading a property, as in \<^verbatim>\<open>result.assets\<close> or a destructuring pattern: a
  \<^verbatim>\<open>TypeError\<close> on \<^verbatim>\<open>undefined\<close> and \<^verbatim>\<open>null\<close>. The names the source reads
  (\<^verbatim>\<open>result\<close>, \<^verbatim>\<open>assets\<close>, \<^verbatim>\<open>region\<close>, \<^verbatim>\<open>logPath\<close>, \<^verbatim>\<open>checkRunDataPath\<close>,
  \<^verbatim>\<open>hasFailures\<close>, \<^verbatim>\<open>data\<close>) are not properties of any primitive or array, so there
  the read gives \<^verbatim>\<open>undefined\<close>.
\<close>

fun get_prop :: "jsval \<Rightarrow> string \<Rightarrow> exn + jsval" where
  "get_prop JUndefined k = Inl TypeError"
| "get_prop JNull k = Inl TypeError"
| "get_prop (JObj kvs) k = Inr (case map_of kvs k of None \<Rightarrow> JUndefined | Some v \<Rightarrow> v)"
| "get_prop v k = Inr JUndefined"

text \<open>
  Writing a property, as in \<^verbatim>\<open>result.logs = ...\<close>. The module is strict-mode code, where
  the write throws on a primitive. An array would take the property, which a \<^typ>\<open>jsval\<close>
  cannot show; the source never gets there, since an array has no \<^verbatim>\<open>assets\<close>.
\<close>

fun set_prop :: "jsval \<Rightarrow> string \<Rightarrow> jsval \<Rightarrow> exn + jsval" where
  "set_prop (JObj kvs) k v = Inr (JObj (AList.update k v kvs))"
| "set_prop (JArr xs) k v = Inr (JArr xs)"
| "set_prop w k v = Inl TypeError"

subsection \<open>Checks, events, timers\<close>

record 'c check_record =
  check :: 'c
  testResultId :: "string option"

record 'c scheduled_check = "'c check_record" +
  checkRunId :: CheckRunId

datatype 'c event =
    CHECK_REGISTERED
  | CHECK_INPROGRESS 'c CheckRunId
  | CHECK_FAILED CheckRunId 'c jsval
  | CHECK_SUCCESSFUL CheckRunId 'c jsval jsval
  | CHECK_FINISHED 'c
  | RUN_STARTED "'c scheduled_check list" "string option"
  | RUN_FINISHED "string option"
  | ERROR exn
  | MAX_SCHEDULING_DELAY_EXCEEDED

datatype 'c timer_callback =
    CheckTimeout CheckRunId 'c
  | SchedulingDelayExceeded

record 'c timer =
  timer_id :: nat
  delay_ms :: int
  callback :: "'c timer_callback"

text \<open>The local variables a listener closes over.\<close>

record closure =
  count :: nat
  numChecks :: nat

datatype promise = Pending | Resolved

datatype socket = NoSocket | SocketOpen | SocketEnded

datatype run_phase = Idle | Listening | Running | TerminalSuccess | TerminalError

datatype call =
    GetLogs jsval jsval
  | GetCheckRunData jsval jsval
  | GetResultShortLinks string string

definition DEFAULT_CHECK_RUN_TIMEOUT_SECONDS :: int where
  "DEFAULT_CHECK_RUN_TIMEOUT_SECONDS = 300"

definition DEFAULT_SCHEDULING_DELAY_EXCEEDED_MS :: int where
  "DEFAULT_SCHEDULING_DELAY_EXCEEDED_MS = 20000"

subsection \<open>The state\<close>

text \<open>
  The first group is the fields of the class (the queue is a \<^verbatim>\<open>PQueue\<close> of concurrency
  one: a pause flag, the waiting tasks, and the call of \<^verbatim>\<open>processMessage\<close> that is
  suspended at an \<^verbatim>\<open>await\<close>, with the exceptions its calls were rejected with). The second
  is the emitter: the events emitted so far, oldest first, and the closures of the two
  listeners the class registers on itself, with the promise \<^verbatim>\<open>allChecksFinished\<close>
  returns and the number of calls of its \<^verbatim>\<open>resolve\<close>. The third is the timers pending in
  the event loop. The last is the local state of \<^verbatim>\<open>run\<close> and the requests made to the
  asset and short-link collaborators.
\<close>

record 'c state =
  checks :: "(CheckRunId \<times> 'c check_record) list"
  testSessionId :: "string option"
  timeouts :: "(CheckRunId \<times> nat) list"
  schedulingDelayExceededTimeout :: "nat option"
  accountId :: string
  timeout :: int
  verbose :: bool
  queue_paused :: bool
  queue_tasks :: "(CheckRunId \<times> string \<times> jsval) list"
  suspended :: "(CheckRunId \<times> 'c check_record \<times> jsval) option"
  rejections :: "exn list"
  events :: "'c event list"
  finished_listener :: "closure option"
  inprogress_listener :: "closure option"
  allFinished :: "promise option"
  resolve_calls :: nat
  timers :: "'c timer list"
  next_timer :: nat
  phase :: run_phase
  socketClient :: socket
  checkRunSuiteId :: string
  subscription :: "string option"
  calls :: "call list"

text \<open>
  The collaborators the class consumes: the broker client, the identifier generator, the
  abstract method \<^verbatim>\<open>scheduleChecks\<close>, and the REST calls. Each either fails with an
  exception or returns.
\<close>

record 'c env =
  connect :: "exn option"
  subscribe :: "string \<Rightarrow> exn option"
  uuid_v4 :: string
  scheduleChecks :: "string \<Rightarrow> exn + (string option \<times> 'c scheduled_check list)"
  getLogs :: "jsval \<Rightarrow> jsval \<Rightarrow> exn + jsval"
  getCheckRunData :: "jsval \<Rightarrow> jsval \<Rightarrow> exn + jsval"
  getResultShortLinks :: "string \<Rightarrow> string \<Rightarrow> exn + jsval"

definition constructor :: "string \<Rightarrow> int \<Rightarrow> bool \<Rightarrow> 'c state" where
  "constructor account t v =
     \<lparr> checks = [], testSessionId = None, timeouts = [],
       schedulingDelayExceededTimeout = None,
       accountId = account, timeout = t, verbose = v,
       queue_paused = True, queue_tasks = [], suspended = None, rejections = [],
       events = [], finished_listener = None, inprogress_listener = None,
       allFinished = None, resolve_calls = 0,
       timers = [], next_timer = 0,
       phase = Idle, socketClient = NoSocket, checkRunSuiteId = [], subscription = None,
       calls = [] \<rparr>"

subsection \<open>Timers\<close>

definition setTimeout :: "'c timer_callback \<Rightarrow> int \<Rightarrow> 'c state \<Rightarrow> nat \<times> 'c state" where
  "setTimeout cb ms st =
     (next_timer st,
      st\<lparr> timers := timers st @ [\<lparr> timer_id = next_timer st, delay_ms = ms, callback = cb \<rparr>],
          next_timer := Suc (next_timer st) \<rparr>)"

text \<open>\<^verbatim>\<open>clearTimeout(undefined)\<close> does nothing.\<close>

definition clearTimeout :: "nat option \<Rightarrow> 'c state \<Rightarrow> 'c state" where
  "clearTimeout h st =
     (case h of
        None \<Rightarrow> st
      | Some i \<Rightarrow> st\<lparr> timers := filter (\<lambda>t. timer_id t \<noteq> i) (timers st) \<rparr>)"

subsection \<open>Emitting an event\<close>

definition resolve :: "'c state \<Rightarrow> 'c state" where
  "resolve st = st\<lparr> allFinished := Some Resolved, resolve_calls := Suc (resolve_calls st) \<rparr>"

text \<open>The listener \<^verbatim>\<open>allChecksFinished\<close> registers for \<^verbatim>\<open>CHECK_FINISHED\<close>.\<close>

definition on_CHECK_FINISHED :: "'c state \<Rightarrow> 'c state" where
  "on_CHECK_FINISHED st =
     (case finished_listener st of
        None \<Rightarrow> st
      | Some c \<Rightarrow>
          (let c' = c\<lparr> count := count c + 1 \<rparr>;
               st1 = st\<lparr> finished_listener := Some c' \<rparr>
           in if count c' = numChecks c' then resolve st1 else st1))"

text \<open>The listener \<^verbatim>\<open>startSchedulingDelayTimeout\<close> registers for \<^verbatim>\<open>CHECK_INPROGRESS\<close>.\<close>

definition on_CHECK_INPROGRESS :: "'c state \<Rightarrow> 'c state" where
  "on_CHECK_INPROGRESS st =
     (case inprogress_listener st of
        None \<Rightarrow> st
      | Some c \<Rightarrow>
          (let c' = c\<lparr> count := count c + 1 \<rparr>;
               st1 = st\<lparr> inprogress_listener := Some c' \<rparr>
           in if count c' = numChecks c'
              then clearTimeout (schedulingDelayExceededTimeout st1) st1 else st1))"

fun listeners :: "'c event \<Rightarrow> 'c state \<Rightarrow> 'c state" where
  "listeners (CHECK_FINISHED c) st = on_CHECK_FINISHED st"
| "listeners (CHECK_INPROGRESS c i) st = on_CHECK_INPROGRESS st"
| "listeners e st = st"

definition emit :: "'c event \<Rightarrow> 'c state \<Rightarrow> 'c state" where
  "emit e st = listeners e (st\<lparr> events := events st @ [e] \<rparr>)"

subsection \<open>The timeout registry\<close>

definition disableTimeout :: "CheckRunId \<Rightarrow> 'c state \<Rightarrow> 'c state" where
  "disableTimeout timeoutKey st =
     (let t = map_of (timeouts st) timeoutKey;
          st1 = clearTimeout t st
      in st1\<lparr> timeouts := AList.delete timeoutKey (timeouts st1) \<rparr>)"

text \<open>
  The text of a number in a template literal. \<^verbatim>\<open>timeout\<close> is a JavaScript number; the
  model takes it to be an integer, and the decimal text below is what JavaScript prints
  for the safe integers only, those of magnitude at most \<open>2\<^sup>5\<^sup>3 - 1\<close>. Beyond them a
  number prints as the shortest digits that identify it (\<open>2\<^sup>6\<^sup>4\<close> as
  \<^verbatim>\<open>18446744073709552000\<close>), and from \<open>10\<^sup>2\<^sup>1\<close> with an exponent; what is proved of the
  text is proved under that bound. \<open>decimal_value\<close> reads a decimal numeral back.
\<close>

definition MAX_SAFE_INTEGER :: int where
  "MAX_SAFE_INTEGER = 2 ^ 53 - 1"

definition decimal_value :: "string \<Rightarrow> nat" where
  "decimal_value s = foldl (\<lambda>a c. 10 * a + (of_char c - 48)) 0 s"

fun nat_to_string :: "nat \<Rightarrow> string" where
  "nat_to_string n =
     (if n < 10 then [''0123456789'' ! n]
      else nat_to_string (n div 10) @ [''0123456789'' ! (n mod 10)])"

declare nat_to_string.simps [simp del]

definition number_to_string :: "int \<Rightarrow> string" where
  "number_to_string i =
     (if i < 0 then CHR ''-'' # nat_to_string (nat (- i)) else nat_to_string (nat i))"

definition support_guidance :: string where
  "support_guidance =
     '' Checkly may be experiencing problems. Please check https://is.checkly.online or reach out to support@checklyhq.com.''"

definition timeout_error_message :: "int \<Rightarrow> string" where
  "timeout_error_message t =
     (let errorMessage =
            ''Reached timeout of '' @ number_to_string t @ '' seconds waiting for check result.''
      in if t = DEFAULT_CHECK_RUN_TIMEOUT_SECONDS
         then errorMessage @ support_guidance else errorMessage)"

text \<open>The callback \<^verbatim>\<open>setAllTimeouts\<close> arms for one check.\<close>

definition check_timeout_callback :: "CheckRunId \<Rightarrow> 'c \<Rightarrow> 'c state \<Rightarrow> 'c state" where
  "check_timeout_callback i c st =
     (let st1 = st\<lparr> timeouts := AList.delete i (timeouts st) \<rparr>;
          errorMessage = timeout_error_message (timeout st1);
          st2 = emit (CHECK_FAILED i c (JStr errorMessage)) st1
      in emit (CHECK_FINISHED c) st2)"

definition arm_check :: "'c state \<Rightarrow> CheckRunId \<times> 'c check_record \<Rightarrow> 'c state" where
  "arm_check st e =
     (let (h, st1) = setTimeout (CheckTimeout (fst e) (check (snd e))) (timeout st * 1000) st
      in st1\<lparr> timeouts := AList.update (fst e) h (timeouts st1) \<rparr>)"

definition setAllTimeouts :: "'c state \<Rightarrow> 'c state" where
  "setAllTimeouts st = foldl arm_check st (checks st)"

definition disableAllTimeouts :: "'c state \<Rightarrow> 'c state" where
  "disableAllTimeouts st =
     (let st1 = foldl (\<lambda>s e. disableTimeout (fst e) s) st (checks st)
      in case schedulingDelayExceededTimeout st1 of
           None \<Rightarrow> st1
         | Some h \<Rightarrow> (clearTimeout (Some h) st1)\<lparr> schedulingDelayExceededTimeout := None \<rparr>)"

subsection \<open>The scheduling-delay monitor and the completion tracker\<close>

definition scheduling_delay_callback :: "'c state \<Rightarrow> 'c state" where
  "scheduling_delay_callback st =
     (emit MAX_SCHEDULING_DELAY_EXCEEDED st)\<lparr> schedulingDelayExceededTimeout := None \<rparr>"

definition startSchedulingDelayTimeout :: "'c state \<Rightarrow> 'c state" where
  "startSchedulingDelayTimeout st =
     (let n = length (checks st)
      in if n = 0 then st
         else
           (let (h, st1) = setTimeout SchedulingDelayExceeded
                             DEFAULT_SCHEDULING_DELAY_EXCEEDED_MS st
            in st1\<lparr> schedulingDelayExceededTimeout := Some h,
                    inprogress_listener := Some \<lparr> count = 0, numChecks = n \<rparr> \<rparr>))"

definition allChecksFinished :: "'c state \<Rightarrow> 'c state" where
  "allChecksFinished st =
     (let n = length (checks st)
      in if n = 0 then st\<lparr> allFinished := Some Resolved \<rparr>
         else st\<lparr> allFinished := Some Pending,
                  finished_listener := Some \<lparr> count = 0, numChecks = n \<rparr> \<rparr>)"

subsection \<open>Processing a message\<close>

definition getShortLinks :: "'c env \<Rightarrow> string \<Rightarrow> 'c state \<Rightarrow> jsval \<times> 'c state" where
  "getShortLinks env resultId st =
     (case testSessionId st of
        None \<Rightarrow> (JUndefined, st)
      | Some sid \<Rightarrow>
          if sid = [] then (JUndefined, st)
          else
            (let st1 = st\<lparr> calls := calls st @ [GetResultShortLinks sid resultId] \<rparr>
             in case getResultShortLinks env sid resultId of
                  Inl e \<Rightarrow> (JUndefined, st1)
                | Inr response \<Rightarrow>
                    (case get_prop response ''data'' of
                       Inl e \<Rightarrow> (JUndefined, st1)
                     | Inr links \<Rightarrow> (links, st1))))"

text \<open>
  \<^verbatim>\<open>processCheckResult\<close> changes its argument in place; the model returns the changed
  result, or the exception with the state reached when it was thrown.
\<close>

definition fetch_asset ::
  "(jsval \<Rightarrow> jsval \<Rightarrow> exn + jsval) \<Rightarrow> (jsval \<Rightarrow> jsval \<Rightarrow> call) \<Rightarrow> string \<Rightarrow> bool \<Rightarrow>
   jsval \<Rightarrow> jsval \<Rightarrow> jsval \<Rightarrow> 'c state \<Rightarrow> (exn + jsval) \<times> 'c state" where
  "fetch_asset fetch req field wanted region path result st =
     (if truthy path \<and> wanted then
        (let st1 = st\<lparr> calls := calls st @ [req region path] \<rparr>
         in case fetch region path of
              Inl e \<Rightarrow> (Inl e, st1)
            | Inr v \<Rightarrow> (set_prop result field v, st1))
      else (Inr result, st))"

definition processCheckResult :: "'c env \<Rightarrow> jsval \<Rightarrow> 'c state \<Rightarrow> (exn + jsval) \<times> 'c state" where
  "processCheckResult env result st =
     (case get_prop result ''assets'' of
        Inl e \<Rightarrow> (Inl e, st)
      | Inr assets \<Rightarrow>
     (case get_prop assets ''region'' of
        Inl e \<Rightarrow> (Inl e, st)
      | Inr region \<Rightarrow>
     (case get_prop assets ''logPath'' of
        Inl e \<Rightarrow> (Inl e, st)
      | Inr logPath \<Rightarrow>
     (case get_prop assets ''checkRunDataPath'' of
        Inl e \<Rightarrow> (Inl e, st)
      | Inr checkRunDataPath \<Rightarrow>
     (case get_prop result ''hasFailures'' of
        Inl e \<Rightarrow> (Inl e, st)
      | Inr hasFailures \<Rightarrow>
     (case fetch_asset (getLogs env) GetLogs ''logs''
             (verbose st \<or> truthy hasFailures) region logPath result st of
        (Inl e, st1) \<Rightarrow> (Inl e, st1)
      | (Inr result1, st1) \<Rightarrow>
          fetch_asset (getCheckRunData env) GetCheckRunData ''checkRunData''
            (verbose st1 \<or> truthy hasFailures) region checkRunDataPath result1 st1))))))"

definition reject :: "exn \<Rightarrow> 'c state \<Rightarrow> 'c state" where
  "reject e st = st\<lparr> rejections := rejections st @ [e] \<rparr>"

text \<open>
  \<^verbatim>\<open>processMessage\<close> up to its first \<^verbatim>\<open>await\<close>: the two guards, the dispatch on the
  subtopic and, for \<^verbatim>\<open>run-end\<close>, disabling the timeout and taking \<^verbatim>\<open>result\<close> out of
  the message. A \<^verbatim>\<open>run-end\<close> call stops there, and what it still has to do is
  returned with the state.
\<close>

definition processMessage_begin ::
  "CheckRunId \<Rightarrow> string \<Rightarrow> jsval \<Rightarrow> 'c state \<Rightarrow>
   (CheckRunId \<times> 'c check_record \<times> jsval) option \<times> 'c state" where
  "processMessage_begin i subtopic message st =
     (if map_of (timeouts st) i = None then (None, st)
      else case map_of (checks st) i of
        None \<Rightarrow> (None, st)
      | Some entry \<Rightarrow>
          if subtopic = ''run-start'' then (None, emit (CHECK_INPROGRESS (check entry) i) st)
          else if subtopic = ''run-end'' then
            (let st1 = disableTimeout i st
             in case get_prop message ''result'' of
                  Inl e \<Rightarrow> (None, reject e st1)
                | Inr result \<Rightarrow> (Some (i, entry, result), st1))
          else if subtopic = ''error'' then
            (let st1 = disableTimeout i st;
                 st2 = emit (CHECK_FAILED i (check entry) message) st1
             in (None, emit (CHECK_FINISHED (check entry)) st2))
          else (None, st))"

text \<open>
  The rest of a \<^verbatim>\<open>run-end\<close> call: \<^verbatim>\<open>processCheckResult\<close>, the short links, the two
  events. The value of \<^verbatim>\<open>links\<close> is that of the \<^verbatim>\<open>&&\<close> chain: the first falsy operand,
  or what \<^verbatim>\<open>getShortLinks\<close> returns.
\<close>

definition processMessage_resume ::
  "'c env \<Rightarrow> CheckRunId \<times> 'c check_record \<times> jsval \<Rightarrow> 'c state \<Rightarrow> 'c state" where
  "processMessage_resume env k st =
     (case k of (i, entry, result) \<Rightarrow>
      (case processCheckResult env result st of
         (Inl e, st1) \<Rightarrow> reject e st1
       | (Inr result1, st1) \<Rightarrow>
          (case get_prop result1 ''hasFailures'' of
             Inl e \<Rightarrow> reject e st1
           | Inr hasFailures \<Rightarrow>
              (let (links, st2) =
                     (case testResultId entry of
                        None \<Rightarrow> (JUndefined, st1)
                      | Some r \<Rightarrow>
                          if r = [] then (JStr r, st1)
                          else if \<not> truthy hasFailures then (hasFailures, st1)
                          else getShortLinks env r st1);
                   st3 = emit (CHECK_SUCCESSFUL i (check entry) result1 links) st2
               in emit (CHECK_FINISHED (check entry)) st3))))"

text \<open>One whole call of \<^verbatim>\<open>processMessage\<close>, when nothing else runs while it is suspended.\<close>

definition processMessage ::
  "'c env \<Rightarrow> CheckRunId \<Rightarrow> string \<Rightarrow> jsval \<Rightarrow> 'c state \<Rightarrow> 'c state" where
  "processMessage env i subtopic message st =
     (case processMessage_begin i subtopic message st of
        (None, st1) \<Rightarrow> st1
      | (Some k, st1) \<Rightarrow> processMessage_resume env k st1)"

subsection \<open>The run\<close>

text \<open>\<^verbatim>\<open>new Map(pairs)\<close>: a later pair with the same key replaces the value in place.\<close>

definition new_Map :: "('k \<times> 'v) list \<Rightarrow> ('k \<times> 'v) list" where
  "new_Map kvs = foldl (\<lambda>m kv. AList.update (fst kv) (snd kv) m) [] kvs"

definition run_finally :: "'c state \<Rightarrow> 'c state" where
  "run_finally st =
     (if socketClient st = SocketOpen then st\<lparr> socketClient := SocketEnded \<rparr> else st)"

definition run_catch :: "exn \<Rightarrow> 'c state \<Rightarrow> 'c state" where
  "run_catch err st =
     (let st1 = disableAllTimeouts st;
          st2 = emit (ERROR err) st1
      in (run_finally st2)\<lparr> phase := TerminalError \<rparr>)"

definition topic_pattern :: "string \<Rightarrow> string \<Rightarrow> string" where
  "topic_pattern account suite =
     ''account/'' @ account @ ''/ad-hoc-check-results/'' @ suite @ ''/+/+''"

text \<open>\<^verbatim>\<open>run\<close> from its start until it waits for \<^verbatim>\<open>scheduleChecks\<close>.\<close>

definition run_connect :: "'c env \<Rightarrow> 'c state \<Rightarrow> 'c state" where
  "run_connect env st =
     (case connect env of
        Some err \<Rightarrow> run_catch err (st\<lparr> socketClient := NoSocket \<rparr>)
      | None \<Rightarrow>
          (let st1 = st\<lparr> socketClient := SocketOpen, checkRunSuiteId := uuid_v4 env \<rparr>;
               topic = topic_pattern (accountId st1) (checkRunSuiteId st1)
           in case subscribe env topic of
                Some err \<Rightarrow> run_catch err st1
              | None \<Rightarrow> st1\<lparr> subscription := Some topic, phase := Listening \<rparr>))"

text \<open>\<^verbatim>\<open>run\<close> from the return of \<^verbatim>\<open>scheduleChecks\<close> until it waits for completion.\<close>

definition run_schedule :: "'c env \<Rightarrow> 'c state \<Rightarrow> 'c state" where
  "run_schedule env st =
     (case scheduleChecks env (checkRunSuiteId st) of
        Inl err \<Rightarrow> run_catch err st
      | Inr (sid, cs) \<Rightarrow>
          (let st1 = st\<lparr> testSessionId := sid,
                         checks := new_Map (map (\<lambda>c. (checkRunId c,
                                      \<lparr> check = check c, testResultId = testResultId c \<rparr>)) cs) \<rparr>;
               st2 = setAllTimeouts st1;
               st3 = startSchedulingDelayTimeout st2;
               st4 = allChecksFinished st3;
               st5 = emit (RUN_STARTED cs sid) st4;
               st6 = st5\<lparr> queue_paused := False \<rparr>
           in st6\<lparr> phase := Running \<rparr>))"

text \<open>\<^verbatim>\<open>run\<close> once the completion promise has resolved.\<close>

definition run_finish :: "'c state \<Rightarrow> 'c state" where
  "run_finish st =
     (let st1 = emit (RUN_FINISHED (testSessionId st)) st
      in (run_finally st1)\<lparr> phase := TerminalSuccess \<rparr>)"

subsection \<open>The event loop\<close>

text \<open>
  What can happen next: \<^verbatim>\<open>run\<close> goes on from one of its three waits; the broker delivers
  a message, which the handler set by \<^verbatim>\<open>configureResultListener\<close> adds to the queue; the
  queue starts its next task; the suspended task goes on; a pending timer fires. A step
  that cannot happen in a state leaves it as it is.
\<close>

datatype action =
    RunConnect
  | RunSchedule
  | RunFinish
  | Deliver CheckRunId string jsval
  | Dequeue
  | Resume
  | Fire nat

fun run_callback :: "'c timer_callback \<Rightarrow> 'c state \<Rightarrow> 'c state" where
  "run_callback (CheckTimeout i c) st = check_timeout_callback i c st"
| "run_callback SchedulingDelayExceeded st = scheduling_delay_callback st"

definition fire :: "nat \<Rightarrow> 'c state \<Rightarrow> 'c state" where
  "fire h st =
     (case find (\<lambda>t. timer_id t = h) (timers st) of
        None \<Rightarrow> st
      | Some t \<Rightarrow>
          run_callback (callback t)
            (st\<lparr> timers := filter (\<lambda>t. timer_id t \<noteq> h) (timers st) \<rparr>))"

fun step :: "'c env \<Rightarrow> 'c state \<Rightarrow> action \<Rightarrow> 'c state" where
  "step env st RunConnect = (if phase st = Idle then run_connect env st else st)"
| "step env st RunSchedule = (if phase st = Listening then run_schedule env st else st)"
| "step env st RunFinish =
     (if phase st = Running \<and> allFinished st = Some Resolved then run_finish st else st)"
| "step env st (Deliver i subtopic message) =
     (if subscription st \<noteq> None \<and> socketClient st = SocketOpen
      then st\<lparr> queue_tasks := queue_tasks st @ [(i, subtopic, message)] \<rparr> else st)"
| "step env st Dequeue =
     (if queue_paused st \<or> suspended st \<noteq> None then st
      else case queue_tasks st of
             [] \<Rightarrow> st
           | (i, subtopic, message) # ts \<Rightarrow>
               (case processMessage_begin i subtopic message (st\<lparr> queue_tasks := ts \<rparr>) of
                  (k, st1) \<Rightarrow> st1\<lparr> suspended := k \<rparr>))"
| "step env st Resume =
     (case suspended st of
        None \<Rightarrow> st
      | Some k \<Rightarrow> processMessage_resume env k (st\<lparr> suspended := None \<rparr>))"
| "step env st (Fire h) = fire h st"

definition exec :: "'c env \<Rightarrow> 'c state \<Rightarrow> action list \<Rightarrow> 'c state" where
  "exec env st as = foldl (step env) st as"

subsection \<open>Reading the event trace\<close>

text \<open>
  The two events that end a check carry its \<^verbatim>\<open>checkRunId\<close>; \<^verbatim>\<open>CHECK_FINISHED\<close> carries
  only the check.
\<close>

fun terminal :: "'c event \<Rightarrow> (CheckRunId \<times> 'c) option" where
  "terminal (CHECK_FAILED i c m) = Some (i, c)"
| "terminal (CHECK_SUCCESSFUL i c r l) = Some (i, c)"
| "terminal e = None"

fun is_finished :: "'c event \<Rightarrow> bool" where
  "is_finished (CHECK_FINISHED c) = True"
| "is_finished e = False"

fun is_inprogress :: "'c event \<Rightarrow> bool" where
  "is_inprogress (CHECK_INPROGRESS c i) = True"
| "is_inprogress e = False"

text \<open>The run ids of the failed and succeeded events of a trace, in order.\<close>

primrec terminal_ids :: "'c event list \<Rightarrow> CheckRunId list" where
  "terminal_ids [] = []"
| "terminal_ids (e # es) =
     (case terminal e of None \<Rightarrow> terminal_ids es | Some (i, c) \<Rightarrow> i # terminal_ids es)"

text \<open>The run ids of the in-progress events of a trace, in order.\<close>

primrec inprogress_ids :: "'c event list \<Rightarrow> CheckRunId list" where
  "inprogress_ids [] = []"
| "inprogress_ids (e # es) =
     (case e of CHECK_INPROGRESS c i \<Rightarrow> i # inprogress_ids es | _ \<Rightarrow> inprogress_ids es)"

text \<open>
  A trace is paired when every failed or succeeded event is followed at once by the
  finished event of the same check, and there is no other finished event.
\<close>

fun paired :: "'c event list \<Rightarrow> bool" where
  "paired [] = True"
| "paired (e # es) =
     (case terminal e of
        Some (i, c) \<Rightarrow>
          (case es of [] \<Rightarrow> False | e' # es' \<Rightarrow> e' = CHECK_FINISHED c \<and> paired es')
      | None \<Rightarrow> \<not> is_finished e \<and> paired es)"

definition sched_pending :: "'c state \<Rightarrow> bool" where
  "sched_pending st = (\<exists>t \<in> set (timers st). callback t = SchedulingDelayExceeded)"

subsection \<open>Invariants of a run\<close>

text \<open>Before the checks are scheduled, and after a run that failed before that.\<close>

definition unarmed :: "'c state \<Rightarrow> bool" where
  "unarmed st \<longleftrightarrow>
     checks st = [] \<and> timeouts st = [] \<and> timers st = [] \<and> suspended st = None \<and>
     queue_paused st \<and> schedulingDelayExceededTimeout st = None \<and>
     finished_listener st = None \<and> inprogress_listener st = None \<and>
     allFinished st = None \<and> resolve_calls st = 0"

text \<open>
  Every pending timer is accounted for: the timer of a check is the one its entry of
  \<open>timeouts\<close> holds, the scheduling-delay timer is the one the field holds, and no entry
  of \<open>timeouts\<close> holds the scheduling-delay timer.
\<close>

definition timers_ok :: "'c state \<Rightarrow> bool" where
  "timers_ok st \<longleftrightarrow>
     distinct (map timer_id (timers st)) \<and>
     fst ` set (timeouts st) \<subseteq> fst ` set (checks st) \<and>
     (\<forall>t \<in> set (timers st).
        case callback t of
          CheckTimeout i c \<Rightarrow> map_of (timeouts st) i = Some (timer_id t)
        | SchedulingDelayExceeded \<Rightarrow>
            schedulingDelayExceededTimeout st = Some (timer_id t) \<and>
            timer_id t \<notin> snd ` set (timeouts st))"

text \<open>
  The checks that have ended are known, have no entry in \<open>timeouts\<close> and ended once; so
  has the check whose \<^verbatim>\<open>run-end\<close> is being processed, which has not ended yet.
\<close>

definition terminal_ok :: "'c state \<Rightarrow> bool" where
  "terminal_ok st \<longleftrightarrow>
     paired (events st) \<and>
     distinct (terminal_ids (events st)) \<and>
     distinct (map fst (checks st)) \<and>
     set (terminal_ids (events st)) \<subseteq> fst ` set (checks st) \<and>
     set (terminal_ids (events st)) \<inter> fst ` set (timeouts st) = {} \<and>
     (case suspended st of
        None \<Rightarrow> True
      | Some (i, entry, result) \<Rightarrow>
          map_of (checks st) i = Some entry \<and> map_of (timeouts st) i = None \<and>
          i \<notin> set (terminal_ids (events st)))"

definition tracker_ok :: "'c state \<Rightarrow> bool" where
  "tracker_ok st \<longleftrightarrow>
     (let n = length (checks st); k = length (filter is_finished (events st))
      in if n = 0
         then finished_listener st = None \<and> allFinished st = Some Resolved \<and>
              resolve_calls st = 0
         else finished_listener st = Some \<lparr> count = k, numChecks = n \<rparr> \<and>
              allFinished st = Some (if k < n then Pending else Resolved) \<and>
              resolve_calls st = (if k < n then 0 else 1))"

definition monitor_ok :: "'c state \<Rightarrow> bool" where
  "monitor_ok st \<longleftrightarrow>
     (let n = length (checks st); k = length (filter is_inprogress (events st))
      in if n = 0
         then inprogress_listener st = None \<and> \<not> sched_pending st
         else inprogress_listener st = Some \<lparr> count = k, numChecks = n \<rparr> \<and>
              (sched_pending st \<longleftrightarrow>
                 k < n \<and> MAX_SCHEDULING_DELAY_EXCEEDED \<notin> set (events st)))"

definition armed :: "'c state \<Rightarrow> bool" where
  "armed st \<longleftrightarrow> timers_ok st \<and> terminal_ok st \<and> tracker_ok st \<and> monitor_ok st"

definition arming :: "'c state \<Rightarrow> bool" where
  "arming st \<longleftrightarrow>
     distinct (map timer_id (timers st)) \<and>
     (\<forall>t \<in> set (timers st).
        timer_id t < next_timer st \<and>
        (case callback t of
           CheckTimeout i c \<Rightarrow> map_of (timeouts st) i = Some (timer_id t)
         | SchedulingDelayExceeded \<Rightarrow> False)) \<and>
     (\<forall>e \<in> set (timeouts st). snd e < next_timer st)"

text \<open>
  The invariant of a run, by the point \<^verbatim>\<open>run\<close> has reached. After a run has finished,
  as many checks have finished as were scheduled.
\<close>

definition run_inv :: "'c state \<Rightarrow> bool" where
  "run_inv st =
     (case phase st of
        Idle \<Rightarrow> unarmed st \<and> events st = [] \<and> socketClient st = NoSocket \<and>
                subscription st = None
      | Listening \<Rightarrow> unarmed st \<and> events st = [] \<and> socketClient st = SocketOpen
      | Running \<Rightarrow> armed st \<and> socketClient st = SocketOpen
      | TerminalSuccess \<Rightarrow> armed st \<and> socketClient st = SocketEnded \<and>
                           length (checks st) \<le> length (filter is_finished (events st))
      | TerminalError \<Rightarrow> unarmed st \<and> socketClient st \<noteq> SocketOpen \<and>
                         (\<exists>x. events st = [ERROR x]))"

subsection \<open>What a \<^verbatim>\<open>run-end\<close> message asks for\<close>

text \<open>
  The conditions under which the source fetches, written out once: a property read that
  gives \<^verbatim>\<open>undefined\<close> where there is nothing to read, the test on an asset path, and
  the request for short links with its value.
\<close>

definition read_prop :: "jsval \<Rightarrow> string \<Rightarrow> jsval" where
  "read_prop v k = (case get_prop v k of Inl e \<Rightarrow> JUndefined | Inr x \<Rightarrow> x)"

definition asset_wanted :: "'c state \<Rightarrow> jsval \<Rightarrow> jsval \<Rightarrow> bool" where
  "asset_wanted st path hasFailures \<longleftrightarrow> truthy path \<and> (verbose st \<or> truthy hasFailures)"

definition links_wanted :: "'c state \<Rightarrow> 'c check_record \<Rightarrow> jsval \<Rightarrow> (string \<times> string) option" where
  "links_wanted st entry hasFailures =
     (case testResultId entry of
        None \<Rightarrow> None
      | Some r \<Rightarrow>
          (case testSessionId st of
             None \<Rightarrow> None
           | Some sid \<Rightarrow>
               if r \<noteq> [] \<and> truthy hasFailures \<and> sid \<noteq> [] then Some (sid, r) else None))"

definition links_value :: "'c env \<Rightarrow> 'c state \<Rightarrow> 'c check_record \<Rightarrow> jsval \<Rightarrow> jsval" where
  "links_value env st entry hasFailures =
     (case testResultId entry of
        None \<Rightarrow> JUndefined
      | Some r \<Rightarrow>
          if r = [] then JStr r
          else if \<not> truthy hasFailures then hasFailures
          else (case links_wanted st entry hasFailures of
                  None \<Rightarrow> JUndefined
                | Some (sid, r') \<Rightarrow>
                    (case getResultShortLinks env sid r' of
                       Inl e \<Rightarrow> JUndefined
                     | Inr response \<Rightarrow> read_prop response ''data'')))"

subsection \<open>A run to evaluate\<close>

text \<open>
  Two checks, \<open>a\<close> with a test result id and \<open>b\<close> without, scheduled in a session; every
  collaborator answers. In the second environment the log store is unreachable, in the
  third the scheduler returns no session, in the fourth it fails.
\<close>

definition example_env :: "string env" where
  "example_env =
     \<lparr> connect = None, subscribe = (\<lambda>t. None), uuid_v4 = ''suite'',
       scheduleChecks = (\<lambda>s. Inr (Some ''session'',
          [\<lparr> check = ''check-a'', testResultId = Some ''result-a'', checkRunId = ''a'' \<rparr>,
           \<lparr> check = ''check-b'', testResultId = None, checkRunId = ''b'' \<rparr>])),
       getLogs = (\<lambda>r p. Inr (JStr ''log'')),
       getCheckRunData = (\<lambda>r p. Inr (JStr ''data'')),
       getResultShortLinks = (\<lambda>s r. Inr (JObj [(''data'', JStr ''links'')])) \<rparr>"

definition failing_env :: "string env" where
  "failing_env = example_env\<lparr> getLogs := (\<lambda>r p. Inl (Rejected ''unavailable'')) \<rparr>"

definition sessionless_env :: "string env" where
  "sessionless_env =
     example_env\<lparr> scheduleChecks := (\<lambda>s. Inr (None,
          [\<lparr> check = ''check-a'', testResultId = Some ''result-a'', checkRunId = ''a'' \<rparr>,
           \<lparr> check = ''check-b'', testResultId = None, checkRunId = ''b'' \<rparr>])) \<rparr>"

definition unschedulable_env :: "string env" where
  "unschedulable_env =
     example_env\<lparr> scheduleChecks := (\<lambda>s. Inl (Rejected ''unschedulable'')) \<rparr>"

definition example_start :: "string state" where
  "example_start = constructor ''account'' 300 False"

definition running :: "string state" where
  "running = exec example_env example_start [RunConnect, RunSchedule]"

text \<open>Three \<^verbatim>\<open>run-end\<close> messages: a failed result with a log, one without assets, a passed one.\<close>

definition failed_result :: jsval where
  "failed_result =
     JObj [(''result'', JObj [(''hasFailures'', JBool True),
                             (''assets'', JObj [(''region'', JStr ''eu-west-1''),
                                               (''logPath'', JStr ''logs/a'')])])]"

definition bare_result :: jsval where
  "bare_result = JObj [(''result'', JObj [(''hasFailures'', JBool False)])]"

definition passed_result :: jsval where
  "passed_result =
     JObj [(''result'', JObj [(''hasFailures'', JBool False), (''assets'', JObj [])])]"

section \<open>Properties\<close>

subsection \<open>Traces\<close>

lemma terminal_ids_append [simp]:
  "terminal_ids (xs @ ys) = terminal_ids xs @ terminal_ids ys"
  by (induction xs) (auto split: option.splits)

lemma inprogress_ids_append [simp]:
  "inprogress_ids (xs @ ys) = inprogress_ids xs @ inprogress_ids ys"
  by (induction xs) (auto split: event.splits)

lemma length_inprogress_ids:
  "length (inprogress_ids es) = length (filter is_inprogress es)"
  by (induction es) (auto split: event.splits)

lemma paired_append: "paired xs \<Longrightarrow> paired (xs @ ys) = paired ys"
proof (induction xs rule: paired.induct)
  case 1
  show ?case by simp
next
  case (2 e es)
  show ?case
  proof (cases "terminal e")
    case None
    with 2 show ?thesis by simp
  next
    case (Some p)
    obtain i c where p: "p = (i, c)" by (cases p)
    from 2(3) Some p obtain es' where es: "es = CHECK_FINISHED c # es'" and pe: "paired es'"
      by (cases es) auto
    from 2(2) [OF Some p [symmetric] es] pe have "paired (es' @ ys) = paired ys" by simp
    with Some p es show ?thesis by simp
  qed
qed

lemma paired_count:
  "paired es \<Longrightarrow> length (filter is_finished es) = length (terminal_ids es)"
proof (induction es rule: paired.induct)
  case 1
  show ?case by simp
next
  case (2 e es)
  show ?case
  proof (cases "terminal e")
    case None
    with 2 show ?thesis by simp
  next
    case (Some p)
    obtain i c where p: "p = (i, c)" by (cases p)
    from 2(3) Some p obtain es' where es: "es = CHECK_FINISHED c # es'" and pe: "paired es'"
      by (cases es) auto
    from 2(2) [OF Some p [symmetric] es] pe
    have "length (filter is_finished es') = length (terminal_ids es')" by simp
    moreover have "\<not> is_finished e" using Some by (cases e) auto
    ultimately show ?thesis using Some p es by simp
  qed
qed

subsection \<open>What each operation changes\<close>

lemma clearTimeout_None [simp]: "clearTimeout None st = st"
  by (simp add: clearTimeout_def)

lemma clearTimeout_Some:
  "clearTimeout (Some h) st = st\<lparr> timers := filter (\<lambda>t. timer_id t \<noteq> h) (timers st) \<rparr>"
  by (simp add: clearTimeout_def)

lemma emit_frame [simp]:
  "checks (emit e st) = checks st"
  "timeouts (emit e st) = timeouts st"
  "testSessionId (emit e st) = testSessionId st"
  "schedulingDelayExceededTimeout (emit e st) = schedulingDelayExceededTimeout st"
  "suspended (emit e st) = suspended st"
  "phase (emit e st) = phase st"
  "socketClient (emit e st) = socketClient st"
  "subscription (emit e st) = subscription st"
  "queue_paused (emit e st) = queue_paused st"
  "queue_tasks (emit e st) = queue_tasks st"
  "rejections (emit e st) = rejections st"
  "calls (emit e st) = calls st"
  "timeout (emit e st) = timeout st"
  "verbose (emit e st) = verbose st"
  "events (emit e st) = events st @ [e]"
  by (cases e; simp add: emit_def on_CHECK_FINISHED_def on_CHECK_INPROGRESS_def resolve_def
        clearTimeout_def Let_def split: option.splits)+

lemma emit_not_finished [simp]:
  "\<not> is_finished e \<Longrightarrow> finished_listener (emit e st) = finished_listener st"
  "\<not> is_finished e \<Longrightarrow> allFinished (emit e st) = allFinished st"
  "\<not> is_finished e \<Longrightarrow> resolve_calls (emit e st) = resolve_calls st"
  by (cases e; simp add: emit_def on_CHECK_INPROGRESS_def
        clearTimeout_def Let_def split: option.splits)+

lemma emit_not_inprogress [simp]:
  "\<not> is_inprogress e \<Longrightarrow> timers (emit e st) = timers st"
  "\<not> is_inprogress e \<Longrightarrow> inprogress_listener (emit e st) = inprogress_listener st"
  by (cases e; simp add: emit_def on_CHECK_FINISHED_def resolve_def
        Let_def split: option.splits)+

lemma emit_finished_tracker:
  "finished_listener (emit (CHECK_FINISHED c) st) =
     map_option (\<lambda>k. k\<lparr> count := count k + 1 \<rparr>) (finished_listener st)"
  "allFinished (emit (CHECK_FINISHED c) st) =
     (case finished_listener st of
        None \<Rightarrow> allFinished st
      | Some k \<Rightarrow> if count k + 1 = numChecks k then Some Resolved else allFinished st)"
  "resolve_calls (emit (CHECK_FINISHED c) st) =
     (case finished_listener st of
        None \<Rightarrow> resolve_calls st
      | Some k \<Rightarrow> if count k + 1 = numChecks k then Suc (resolve_calls st)
                  else resolve_calls st)"
  by (simp_all add: emit_def on_CHECK_FINISHED_def resolve_def Let_def split: option.splits)

lemma emit_inprogress_monitor:
  "inprogress_listener (emit (CHECK_INPROGRESS c i) st) =
     map_option (\<lambda>k. k\<lparr> count := count k + 1 \<rparr>) (inprogress_listener st)"
  "timers (emit (CHECK_INPROGRESS c i) st) =
     (case inprogress_listener st of
        None \<Rightarrow> timers st
      | Some k \<Rightarrow>
          if count k + 1 = numChecks k
          then (case schedulingDelayExceededTimeout st of
                  None \<Rightarrow> timers st
                | Some h \<Rightarrow> filter (\<lambda>t. timer_id t \<noteq> h) (timers st))
          else timers st)"
  by (simp_all add: emit_def on_CHECK_INPROGRESS_def clearTimeout_def Let_def
        split: option.splits)

lemma disableTimeout_absent: "map_of (timeouts st) k = None \<Longrightarrow> disableTimeout k st = st"
proof -
  assume a: "map_of (timeouts st) k = None"
  then have "k \<notin> fst ` set (timeouts st)" by (simp add: map_of_eq_None_iff)
  with a show ?thesis by (simp add: disableTimeout_def clearTimeout_def)
qed

lemma disableTimeout_present:
  "map_of (timeouts st) k = Some h \<Longrightarrow>
   disableTimeout k st =
     st\<lparr> timers := filter (\<lambda>t. timer_id t \<noteq> h) (timers st),
         timeouts := AList.delete k (timeouts st) \<rparr>"
  by (simp add: disableTimeout_def clearTimeout_def)

lemma disableTimeout_frame [simp]:
  "timeouts (disableTimeout k st) = AList.delete k (timeouts st)"
  "checks (disableTimeout k st) = checks st"
  "events (disableTimeout k st) = events st"
  "suspended (disableTimeout k st) = suspended st"
  "schedulingDelayExceededTimeout (disableTimeout k st) = schedulingDelayExceededTimeout st"
  "finished_listener (disableTimeout k st) = finished_listener st"
  "inprogress_listener (disableTimeout k st) = inprogress_listener st"
  "allFinished (disableTimeout k st) = allFinished st"
  "resolve_calls (disableTimeout k st) = resolve_calls st"
  "phase (disableTimeout k st) = phase st"
  "socketClient (disableTimeout k st) = socketClient st"
  "subscription (disableTimeout k st) = subscription st"
  "queue_paused (disableTimeout k st) = queue_paused st"
  "queue_tasks (disableTimeout k st) = queue_tasks st"
  "rejections (disableTimeout k st) = rejections st"
  "calls (disableTimeout k st) = calls st"
  "testSessionId (disableTimeout k st) = testSessionId st"
  "timeout (disableTimeout k st) = timeout st"
  "verbose (disableTimeout k st) = verbose st"
  by (simp_all add: disableTimeout_def clearTimeout_def split: option.splits)

lemma timers_disableTimeout:
  "timers (disableTimeout k st) =
     (case map_of (timeouts st) k of
        None \<Rightarrow> timers st
      | Some h \<Rightarrow> filter (\<lambda>t. timer_id t \<noteq> h) (timers st))"
  by (simp add: disableTimeout_def clearTimeout_def split: option.splits)

lemma map_of_disableTimeout_same: "map_of (timeouts (disableTimeout k st)) k = None"
  by (simp add: AList.delete_conv')

subsection \<open>Steps that keep a run armed\<close>

lemma timers_ok_iff:
  "timers_ok st \<longleftrightarrow>
     distinct (map timer_id (timers st)) \<and>
     fst ` set (timeouts st) \<subseteq> fst ` set (checks st) \<and>
     (\<forall>t \<in> set (timers st). \<forall>i c. callback t = CheckTimeout i c \<longrightarrow>
        map_of (timeouts st) i = Some (timer_id t)) \<and>
     (\<forall>t \<in> set (timers st). callback t = SchedulingDelayExceeded \<longrightarrow>
        schedulingDelayExceededTimeout st = Some (timer_id t) \<and>
        timer_id t \<notin> snd ` set (timeouts st))"
  by (simp add: timers_ok_def timer_callback.split [where P = "\<lambda>x. x"] cong: conj_cong)
    blast

lemma terminal_ok_iff:
  "terminal_ok st \<longleftrightarrow>
     paired (events st) \<and>
     distinct (terminal_ids (events st)) \<and>
     distinct (map fst (checks st)) \<and>
     set (terminal_ids (events st)) \<subseteq> fst ` set (checks st) \<and>
     set (terminal_ids (events st)) \<inter> fst ` set (timeouts st) = {} \<and>
     (\<forall>i entry result. suspended st = Some (i, entry, result) \<longrightarrow>
          map_of (checks st) i = Some entry \<and> map_of (timeouts st) i = None \<and>
          i \<notin> set (terminal_ids (events st)))"
  by (cases "suspended st") (auto simp: terminal_ok_def)

lemma sched_pending_frame:
  "timers st' = timers st \<Longrightarrow> sched_pending st' = sched_pending st"
  by (simp add: sched_pending_def)

lemma timers_ok_cong:
  "timers st' = timers st \<Longrightarrow> timeouts st' = timeouts st \<Longrightarrow> checks st' = checks st \<Longrightarrow>
   schedulingDelayExceededTimeout st' = schedulingDelayExceededTimeout st \<Longrightarrow>
   timers_ok st' = timers_ok st"
  by (simp add: timers_ok_iff)

lemma terminal_ok_cong:
  "events st' = events st \<Longrightarrow> timeouts st' = timeouts st \<Longrightarrow> checks st' = checks st \<Longrightarrow>
   suspended st' = suspended st \<Longrightarrow> terminal_ok st' = terminal_ok st"
  by (simp add: terminal_ok_iff)

lemma tracker_ok_cong:
  "events st' = events st \<Longrightarrow> checks st' = checks st \<Longrightarrow>
   finished_listener st' = finished_listener st \<Longrightarrow> allFinished st' = allFinished st \<Longrightarrow>
   resolve_calls st' = resolve_calls st \<Longrightarrow> tracker_ok st' = tracker_ok st"
  by (simp add: tracker_ok_def)

lemma monitor_ok_cong:
  "events st' = events st \<Longrightarrow> checks st' = checks st \<Longrightarrow> timers st' = timers st \<Longrightarrow>
   inprogress_listener st' = inprogress_listener st \<Longrightarrow> monitor_ok st' = monitor_ok st"
  by (simp add: monitor_ok_def sched_pending_def)

lemma armed_cong:
  "events st' = events st \<Longrightarrow> checks st' = checks st \<Longrightarrow> timers st' = timers st \<Longrightarrow>
   timeouts st' = timeouts st \<Longrightarrow> suspended st' = suspended st \<Longrightarrow>
   schedulingDelayExceededTimeout st' = schedulingDelayExceededTimeout st \<Longrightarrow>
   finished_listener st' = finished_listener st \<Longrightarrow> allFinished st' = allFinished st \<Longrightarrow>
   resolve_calls st' = resolve_calls st \<Longrightarrow>
   inprogress_listener st' = inprogress_listener st \<Longrightarrow> armed st' = armed st"
  unfolding armed_def
  by (simp add: timers_ok_cong [of st' st] terminal_ok_cong [of st' st]
        tracker_ok_cong [of st' st] monitor_ok_cong [of st' st])

lemma armed_frame [simp]:
  "armed (st\<lparr> queue_tasks := q \<rparr>) = armed st"
  "armed (st\<lparr> rejections := r \<rparr>) = armed st"
  "armed (st\<lparr> calls := cs \<rparr>) = armed st"
  "armed (st\<lparr> phase := p \<rparr>) = armed st"
  "armed (st\<lparr> socketClient := s \<rparr>) = armed st"
  "armed (st\<lparr> queue_paused := b \<rparr>) = armed st"
  by (rule armed_cong; simp)+

lemma armed_suspended:
  "armed (st\<lparr> suspended := k \<rparr>) \<longleftrightarrow>
     timers_ok st \<and> terminal_ok (st\<lparr> suspended := k \<rparr>) \<and> tracker_ok st \<and> monitor_ok st"
  unfolding armed_def
  by (simp add: timers_ok_cong [of "st\<lparr> suspended := k \<rparr>" st]
        tracker_ok_cong [of "st\<lparr> suspended := k \<rparr>" st]
        monitor_ok_cong [of "st\<lparr> suspended := k \<rparr>" st])

lemma armed_unsuspend: "armed st \<Longrightarrow> armed (st\<lparr> suspended := None \<rparr>)"
  by (simp add: armed_suspended) (simp add: armed_def terminal_ok_iff)

lemma armed_suspend:
  "armed st \<Longrightarrow> map_of (checks st) i = Some entry \<Longrightarrow> map_of (timeouts st) i = None \<Longrightarrow>
   i \<notin> set (terminal_ids (events st)) \<Longrightarrow>
   armed (st\<lparr> suspended := Some (i, entry, result) \<rparr>)"
  by (simp add: armed_suspended) (simp add: armed_def terminal_ok_iff)

text \<open>Disabling a timeout.\<close>

lemma map_of_delete_None: "map_of tm j = None \<Longrightarrow> map_of (AList.delete i tm) j = None"
  by (simp add: AList.delete_conv')

lemma snd_set_delete: "snd ` set (AList.delete i tm) \<subseteq> snd ` set tm"
  by (auto simp: AList.delete_eq)

lemma fst_set_delete: "fst ` set (AList.delete i tm) = fst ` set tm - {i}"
proof -
  have "fst ` set (AList.delete i tm) = set (map fst (AList.delete i tm))" by simp
  also have "\<dots> = set (map fst tm) - {i}" by (simp only: AList.delete_keys set_removeAll)
  finally show ?thesis by simp
qed

lemma timers_ok_disableTimeout: "timers_ok st \<Longrightarrow> timers_ok (disableTimeout i st)"
proof (cases "map_of (timeouts st) i")
  case None
  assume "timers_ok st"
  with None show ?thesis by (simp add: disableTimeout_absent)
next
  case (Some h)
  assume ok: "timers_ok st"
  have "\<And>t j c. t \<in> set (timers st) \<Longrightarrow> timer_id t \<noteq> h \<Longrightarrow> callback t = CheckTimeout j c \<Longrightarrow>
      map_of (AList.delete i (timeouts st)) j = Some (timer_id t)"
  proof -
    fix t j c
    assume t: "t \<in> set (timers st)" and ne: "timer_id t \<noteq> h"
      and cb: "callback t = CheckTimeout j c"
    with ok have m: "map_of (timeouts st) j = Some (timer_id t)"
      by (simp add: timers_ok_iff)
    with Some ne have "j \<noteq> i" by auto
    with m show "map_of (AList.delete i (timeouts st)) j = Some (timer_id t)" by simp
  qed
  moreover have "\<And>t. t \<in> set (timers st) \<Longrightarrow> callback t = SchedulingDelayExceeded \<Longrightarrow>
      schedulingDelayExceededTimeout st = Some (timer_id t) \<and>
      timer_id t \<notin> snd ` set (AList.delete i (timeouts st))"
  proof -
    fix t
    assume t: "t \<in> set (timers st)" and cb: "callback t = SchedulingDelayExceeded"
    with ok have a: "schedulingDelayExceededTimeout st = Some (timer_id t)"
      and b: "timer_id t \<notin> snd ` set (timeouts st)"
      by (simp_all add: timers_ok_iff)
    from b snd_set_delete [of i "timeouts st"]
    have "timer_id t \<notin> snd ` set (AList.delete i (timeouts st))" by blast
    with a show "schedulingDelayExceededTimeout st = Some (timer_id t) \<and>
      timer_id t \<notin> snd ` set (AList.delete i (timeouts st))" by simp
  qed
  moreover from ok have "distinct (map timer_id (filter (\<lambda>t. timer_id t \<noteq> h) (timers st)))"
    by (simp add: timers_ok_iff distinct_map_filter)
  moreover from ok have "fst ` set (AList.delete i (timeouts st)) \<subseteq> fst ` set (checks st)"
    using fst_set_delete [of i "timeouts st"] by (simp add: timers_ok_iff) blast
  ultimately show ?thesis
    by (simp add: disableTimeout_present [OF Some] timers_ok_iff)
qed

lemma terminal_ok_disableTimeout: "terminal_ok st \<Longrightarrow> terminal_ok (disableTimeout i st)"
proof -
  assume ok: "terminal_ok st"
  then have "set (terminal_ids (events st)) \<inter> fst ` set (timeouts st) = {}"
    by (simp add: terminal_ok_iff)
  then have "set (terminal_ids (events st)) \<inter> fst ` set (AList.delete i (timeouts st)) = {}"
    unfolding fst_set_delete by blast
  with ok show ?thesis
    by (simp add: terminal_ok_iff map_of_delete_None)
qed

lemma tracker_ok_disableTimeout: "tracker_ok (disableTimeout i st) = tracker_ok st"
  by (rule tracker_ok_cong) simp_all

lemma sched_pending_disableTimeout:
  "timers_ok st \<Longrightarrow> sched_pending (disableTimeout i st) = sched_pending st"
proof (cases "map_of (timeouts st) i")
  case None
  then show ?thesis by (simp add: disableTimeout_absent)
next
  case (Some h)
  assume ok: "timers_ok st"
  from Some have "(i, h) \<in> set (timeouts st)" by (rule map_of_SomeD)
  then have "h \<in> snd ` set (timeouts st)" by force
  with ok have "\<And>t. t \<in> set (timers st) \<Longrightarrow> callback t = SchedulingDelayExceeded \<Longrightarrow>
      timer_id t \<noteq> h"
    by (auto simp: timers_ok_iff)
  then show ?thesis
    by (auto simp: sched_pending_def disableTimeout_present [OF Some])
qed

lemma monitor_ok_disableTimeout:
  "timers_ok st \<Longrightarrow> monitor_ok st \<Longrightarrow> monitor_ok (disableTimeout i st)"
  by (simp add: monitor_ok_def Let_def sched_pending_disableTimeout)

lemma armed_disableTimeout: "armed st \<Longrightarrow> armed (disableTimeout i st)"
  by (simp add: armed_def timers_ok_disableTimeout terminal_ok_disableTimeout
        tracker_ok_disableTimeout monitor_ok_disableTimeout)

text \<open>Emitting an event that ends no check.\<close>

lemma timers_ok_filter:
  assumes "timers_ok st" and "timers st' = filter P (timers st)"
    and "timeouts st' = timeouts st" and "checks st' = checks st"
    and "schedulingDelayExceededTimeout st' = schedulingDelayExceededTimeout st"
  shows "timers_ok st'"
  using assms by (simp add: timers_ok_iff distinct_map_filter)

lemma timers_emit_inprogress:
  "\<exists>P. timers (emit (CHECK_INPROGRESS c i) st) = filter P (timers st)"
proof (cases "timers (emit (CHECK_INPROGRESS c i) st) = timers st")
  case True
  then have "timers (emit (CHECK_INPROGRESS c i) st) = filter (\<lambda>t. True) (timers st)" by simp
  then show ?thesis by blast
next
  case False
  then obtain h where
    "timers (emit (CHECK_INPROGRESS c i) st) = filter (\<lambda>t. timer_id t \<noteq> h) (timers st)"
    by (auto simp: emit_inprogress_monitor split: option.splits if_splits)
  then show ?thesis by blast
qed

lemma timers_ok_emit: "timers_ok st \<Longrightarrow> timers_ok (emit e st)"
proof (cases "is_inprogress e")
  case False
  assume "timers_ok st"
  with False show ?thesis by (simp add: timers_ok_cong [of "emit e st" st])
next
  case True
  assume ok: "timers_ok st"
  from True obtain c i where e: "e = CHECK_INPROGRESS c i" by (cases e) auto
  obtain P where "timers (emit e st) = filter P (timers st)"
    using timers_emit_inprogress [of c i st] e by blast
  with ok show ?thesis by (rule timers_ok_filter) simp_all
qed

lemma terminal_ok_emit:
  "terminal e = None \<Longrightarrow> \<not> is_finished e \<Longrightarrow> terminal_ok st \<Longrightarrow> terminal_ok (emit e st)"
  by (simp add: terminal_ok_iff paired_append)

lemma tracker_ok_emit: "\<not> is_finished e \<Longrightarrow> tracker_ok (emit e st) = tracker_ok st"
  by (simp add: tracker_ok_def)

lemma monitor_ok_emit:
  "\<not> is_inprogress e \<Longrightarrow> e \<noteq> MAX_SCHEDULING_DELAY_EXCEEDED \<Longrightarrow>
   monitor_ok (emit e st) = monitor_ok st"
  by (simp add: monitor_ok_def sched_pending_def)

lemma sched_pending_filter:
  assumes ok: "timers_ok st" and h: "schedulingDelayExceededTimeout st = Some h"
  shows "\<not> (\<exists>t \<in> set (filter (\<lambda>t. timer_id t \<noteq> h) (timers st)).
             callback t = SchedulingDelayExceeded)"
  using ok h by (auto simp: timers_ok_iff)

lemma sched_pending_field:
  "timers_ok st \<Longrightarrow> sched_pending st \<Longrightarrow> schedulingDelayExceededTimeout st \<noteq> None"
  by (auto simp: timers_ok_iff sched_pending_def)

lemma monitor_ok_emit_inprogress:
  assumes ok: "timers_ok st" and m: "monitor_ok st"
  shows "monitor_ok (emit (CHECK_INPROGRESS c i) st)"
proof (cases "checks st = []")
  case True
  with m show ?thesis
    by (simp add: monitor_ok_def Let_def sched_pending_def emit_inprogress_monitor)
next
  case False
  let ?k = "length (filter is_inprogress (events st))"
  let ?n = "length (checks st)"
  from False m have l: "inprogress_listener st = Some \<lparr> count = ?k, numChecks = ?n \<rparr>"
    and p: "sched_pending st \<longleftrightarrow> ?k < ?n \<and> MAX_SCHEDULING_DELAY_EXCEEDED \<notin> set (events st)"
    by (simp_all add: monitor_ok_def Let_def)
  show ?thesis
  proof (cases "Suc ?k = ?n")
    case neq: False
    with l have "timers (emit (CHECK_INPROGRESS c i) st) = timers st"
      by (simp add: emit_inprogress_monitor)
    then have "sched_pending (emit (CHECK_INPROGRESS c i) st) = sched_pending st"
      by (rule sched_pending_frame)
    moreover from p neq have "sched_pending st \<longleftrightarrow>
        Suc ?k < ?n \<and> MAX_SCHEDULING_DELAY_EXCEEDED \<notin> set (events st)"
      by auto
    ultimately show ?thesis using False l
      by (simp add: monitor_ok_def Let_def emit_inprogress_monitor)
  next
    case eq: True
    have "\<not> sched_pending (emit (CHECK_INPROGRESS c i) st)"
    proof (cases "schedulingDelayExceededTimeout st")
      case None
      with ok have "\<not> sched_pending st" using sched_pending_field by blast
      moreover from None l have "timers (emit (CHECK_INPROGRESS c i) st) = timers st"
        by (simp add: emit_inprogress_monitor)
      ultimately show ?thesis by (simp add: sched_pending_def)
    next
      case (Some h)
      with l eq have "timers (emit (CHECK_INPROGRESS c i) st) =
          filter (\<lambda>t. timer_id t \<noteq> h) (timers st)"
        by (simp add: emit_inprogress_monitor)
      with sched_pending_filter [OF ok Some] show ?thesis
        by (simp add: sched_pending_def)
    qed
    with False l eq show ?thesis
      by (simp add: monitor_ok_def Let_def emit_inprogress_monitor)
  qed
qed

lemma armed_emit_inprogress: "armed st \<Longrightarrow> armed (emit (CHECK_INPROGRESS c i) st)"
  by (simp add: armed_def timers_ok_emit terminal_ok_emit tracker_ok_emit
        monitor_ok_emit_inprogress)

lemma armed_emit_plain:
  "armed st \<Longrightarrow> terminal e = None \<Longrightarrow> \<not> is_finished e \<Longrightarrow> \<not> is_inprogress e \<Longrightarrow>
   e \<noteq> MAX_SCHEDULING_DELAY_EXCEEDED \<Longrightarrow> armed (emit e st)"
  by (simp add: armed_def timers_ok_emit terminal_ok_emit tracker_ok_emit monitor_ok_emit)

text \<open>Ending a check.\<close>

lemma tracker_ok_emit_finished: "tracker_ok st \<Longrightarrow> tracker_ok (emit (CHECK_FINISHED c) st)"
  by (auto simp: tracker_ok_def Let_def emit_finished_tracker)

lemma terminal_Some_cases:
  "terminal e = Some (i, c) \<Longrightarrow>
   \<not> is_finished e \<and> \<not> is_inprogress e \<and> e \<noteq> MAX_SCHEDULING_DELAY_EXCEEDED"
  by (cases e) auto

lemma terminal_ok_end:
  assumes ok: "terminal_ok st" and e: "terminal e = Some (i, c)"
    and known: "i \<in> fst ` set (checks st)" and gone: "map_of (timeouts st) i = None"
    and fresh: "i \<notin> set (terminal_ids (events st))"
    and other: "\<forall>j entry result. suspended st = Some (j, entry, result) \<longrightarrow> j \<noteq> i"
  shows "terminal_ok (emit (CHECK_FINISHED c) (emit e st))"
proof -
  have "paired ([e] @ [CHECK_FINISHED c])" using e by simp
  with ok have "paired (events st @ [e] @ [CHECK_FINISHED c])"
    by (simp only: paired_append terminal_ok_iff)
  moreover have "terminal_ids (events st @ [e] @ [CHECK_FINISHED c]) =
      terminal_ids (events st) @ [i]"
    using e by simp
  moreover from gone have "i \<notin> fst ` set (timeouts st)"
    by (simp add: map_of_eq_None_iff)
  ultimately show ?thesis
    using ok known fresh other by (simp add: terminal_ok_iff)
qed

lemma armed_end:
  assumes ok: "armed st" and e: "terminal e = Some (i, c)"
    and known: "i \<in> fst ` set (checks st)" and gone: "map_of (timeouts st) i = None"
    and fresh: "i \<notin> set (terminal_ids (events st))"
    and other: "\<forall>j entry result. suspended st = Some (j, entry, result) \<longrightarrow> j \<noteq> i"
  shows "armed (emit (CHECK_FINISHED c) (emit e st))"
proof -
  note ne = terminal_Some_cases [OF e]
  from ok have "timers_ok (emit (CHECK_FINISHED c) (emit e st))"
    by (simp add: armed_def timers_ok_emit)
  moreover from ok have "terminal_ok (emit (CHECK_FINISHED c) (emit e st))"
    using terminal_ok_end [OF _ e known gone fresh other] by (simp add: armed_def)
  moreover from ok ne have "tracker_ok (emit (CHECK_FINISHED c) (emit e st))"
    by (simp add: armed_def tracker_ok_emit_finished tracker_ok_emit)
  moreover from ok ne have "monitor_ok (emit (CHECK_FINISHED c) (emit e st))"
    by (simp add: armed_def monitor_ok_emit)
  ultimately show ?thesis by (simp add: armed_def)
qed

lemma armed_live:
  assumes ok: "armed st" and live: "map_of (timeouts st) i = Some h"
  shows "i \<in> fst ` set (checks st)" and "i \<notin> set (terminal_ids (events st))"
    and "\<forall>j entry result. suspended st = Some (j, entry, result) \<longrightarrow> j \<noteq> i"
proof -
  from live have "(i, h) \<in> set (timeouts st)" by (rule map_of_SomeD)
  then have k: "i \<in> fst ` set (timeouts st)" by force
  from ok have t: "timers_ok st" and u: "terminal_ok st" by (simp_all add: armed_def)
  from t k show "i \<in> fst ` set (checks st)" by (auto simp: timers_ok_iff)
  from u k show "i \<notin> set (terminal_ids (events st))" by (auto simp: terminal_ok_iff)
  from u live show "\<forall>j entry result. suspended st = Some (j, entry, result) \<longrightarrow> j \<noteq> i"
    by (auto simp: terminal_ok_iff)
qed

lemma armed_disable_end:
  assumes ok: "armed st" and live: "map_of (timeouts st) i = Some h"
    and e: "terminal e = Some (i, c)"
  shows "armed (emit (CHECK_FINISHED c) (emit e (disableTimeout i st)))"
  using armed_live [OF ok live]
  by (intro armed_end [OF armed_disableTimeout [OF ok] e])
     (simp_all add: AList.delete_conv')

text \<open>A timer fires.\<close>

lemma find_timer:
  "find (\<lambda>t. timer_id t = h) ts = Some t \<Longrightarrow> t \<in> set ts \<and> timer_id t = h"
  by (auto simp: find_Some_iff)

lemma fire_absent: "find (\<lambda>t. timer_id t = h) (timers st) = None \<Longrightarrow> fire h st = st"
  by (simp add: fire_def)

lemma fire_check:
  assumes ok: "timers_ok st" and f: "find (\<lambda>t. timer_id t = h) (timers st) = Some t"
    and cb: "callback t = CheckTimeout i c"
  shows "map_of (timeouts st) i = Some h"
    and "fire h st =
      emit (CHECK_FINISHED c)
        (emit (CHECK_FAILED i c (JStr (timeout_error_message (timeout st))))
           (disableTimeout i st))"
proof -
  from find_timer [OF f] have t: "t \<in> set (timers st)" and h: "timer_id t = h" by simp_all
  from ok t cb h show live: "map_of (timeouts st) i = Some h"
    by (auto simp: timers_ok_iff)
  show "fire h st =
      emit (CHECK_FINISHED c)
        (emit (CHECK_FAILED i c (JStr (timeout_error_message (timeout st))))
           (disableTimeout i st))"
    by (simp add: fire_def f cb check_timeout_callback_def Let_def
          disableTimeout_present [OF live])
qed

lemma fire_sched:
  assumes f: "find (\<lambda>t. timer_id t = h) (timers st) = Some t"
    and cb: "callback t = SchedulingDelayExceeded"
  shows "fire h st =
      (emit MAX_SCHEDULING_DELAY_EXCEEDED
         (st\<lparr> timers := filter (\<lambda>t. timer_id t \<noteq> h) (timers st) \<rparr>))
      \<lparr> schedulingDelayExceededTimeout := None \<rparr>"
  by (simp add: fire_def f cb scheduling_delay_callback_def)

lemma armed_fire_sched:
  assumes ok: "armed st" and t: "t \<in> set (timers st)" and h: "timer_id t = h"
    and cb: "callback t = SchedulingDelayExceeded"
  shows "armed ((emit MAX_SCHEDULING_DELAY_EXCEEDED
         (st\<lparr> timers := filter (\<lambda>t. timer_id t \<noteq> h) (timers st) \<rparr>))
      \<lparr> schedulingDelayExceededTimeout := None \<rparr>)" (is "armed ?st'")
proof -
  let ?st0 = "st\<lparr> timers := filter (\<lambda>t. timer_id t \<noteq> h) (timers st) \<rparr>"
  from ok have tk: "timers_ok st" and tm: "terminal_ok st" and tr: "tracker_ok st"
    and mo: "monitor_ok st" by (simp_all add: armed_def)
  from tk t cb h have field: "schedulingDelayExceededTimeout st = Some h"
    by (auto simp: timers_ok_iff)
  have ts: "timers ?st' = filter (\<lambda>t. timer_id t \<noteq> h) (timers st)" by simp
  have none: "\<not> sched_pending ?st'"
    using sched_pending_filter [OF tk field] by (simp add: sched_pending_def)
  have "timers_ok ?st'"
    using tk sched_pending_filter [OF tk field]
    by (simp add: timers_ok_iff distinct_map_filter) blast
  moreover have "terminal_ok ?st'"
    using tm by (simp add: terminal_ok_iff paired_append)
  moreover have "tracker_ok ?st'"
    using tr by (simp add: tracker_ok_def Let_def)
  moreover have "monitor_ok ?st'"
  proof (cases "checks st = []")
    case True
    with mo t cb show ?thesis by (auto simp: monitor_ok_def Let_def sched_pending_def)
  next
    case False
    with mo none show ?thesis by (simp add: monitor_ok_def Let_def)
  qed
  ultimately show ?thesis by (simp add: armed_def)
qed

lemma armed_fire: "armed st \<Longrightarrow> armed (fire h st)"
proof (cases "find (\<lambda>t. timer_id t = h) (timers st)")
  case None
  assume "armed st"
  with None show ?thesis by (simp add: fire_absent)
next
  case (Some t)
  assume ok: "armed st"
  then have tk: "timers_ok st" by (simp add: armed_def)
  show ?thesis
  proof (cases "callback t")
    case (CheckTimeout i c)
    from fire_check [OF tk Some CheckTimeout] armed_disable_end [OF ok, of i h _ c]
    show ?thesis by simp
  next
    case SchedulingDelayExceeded
    from find_timer [OF Some] armed_fire_sched [OF ok _ _ SchedulingDelayExceeded]
    show ?thesis by (simp add: fire_sched [OF Some SchedulingDelayExceeded])
  qed
qed

text \<open>Processing a message.\<close>

lemma reject_frame [simp]:
  "armed (reject e st) = armed st"
  "phase (reject e st) = phase st"
  "socketClient (reject e st) = socketClient st"
  "checks (reject e st) = checks st"
  "queue_paused (reject e st) = queue_paused st"
  "events (reject e st) = events st"
  "timeouts (reject e st) = timeouts st"
  "timers (reject e st) = timers st"
  "suspended (reject e st) = suspended st"
  "calls (reject e st) = calls st"
  "rejections (reject e st) = rejections st @ [e]"
  by (simp_all add: reject_def)

lemma fetch_asset_only_calls:
  "snd (fetch_asset f rq fld w rg p r st) =
     st\<lparr> calls := calls (snd (fetch_asset f rq fld w rg p r st)) \<rparr>"
  by (simp add: fetch_asset_def Let_def split: sum.splits)

lemma processCheckResult_only_calls:
  "snd (processCheckResult env r st) = st\<lparr> calls := calls (snd (processCheckResult env r st)) \<rparr>"
  by (simp add: processCheckResult_def fetch_asset_def Let_def split: sum.splits prod.splits)

lemma getShortLinks_only_calls:
  "snd (getShortLinks env r st) = st\<lparr> calls := calls (snd (getShortLinks env r st)) \<rparr>"
  by (simp add: getShortLinks_def Let_def split: sum.splits option.splits)

lemma only_calls_trans:
  "b = a\<lparr> calls := x \<rparr> \<Longrightarrow> c = b\<lparr> calls := y \<rparr> \<Longrightarrow> c = a\<lparr> calls := y \<rparr>"
  by simp

lemma resume_shape:
  "(\<exists>cs e. processMessage_resume env (i, entry, result) st = reject e (st\<lparr> calls := cs \<rparr>)) \<or>
   (\<exists>cs r l. processMessage_resume env (i, entry, result) st =
      emit (CHECK_FINISHED (check entry))
        (emit (CHECK_SUCCESSFUL i (check entry) r l) (st\<lparr> calls := cs \<rparr>)))"
proof -
  obtain res st1 where p: "processCheckResult env result st = (res, st1)" by force
  with processCheckResult_only_calls [of env result st]
  have st1: "st1 = st\<lparr> calls := calls st1 \<rparr>" by simp
  show ?thesis
  proof (cases res)
    case (Inl e)
    with p st1 have "processMessage_resume env (i, entry, result) st =
        reject e (st\<lparr> calls := calls st1 \<rparr>)"
      by (simp add: processMessage_resume_def)
    then show ?thesis by blast
  next
    case (Inr result1)
    show ?thesis
    proof (cases "get_prop result1 ''hasFailures''")
      case (Inl e)
      with p st1 Inr have "processMessage_resume env (i, entry, result) st =
          reject e (st\<lparr> calls := calls st1 \<rparr>)"
        by (simp add: processMessage_resume_def)
      then show ?thesis by blast
    next
      case hf: (Inr hasFailures)
      obtain links st2 where l: "(case testResultId entry of
                        None \<Rightarrow> (JUndefined, st1)
                      | Some r \<Rightarrow>
                          if r = [] then (JStr r, st1)
                          else if \<not> truthy hasFailures then (hasFailures, st1)
                          else getShortLinks env r st1) = (links, st2)" by force
      have "st2 = st1\<lparr> calls := calls st2 \<rparr>"
      proof (cases "testResultId entry")
        case None
        with l show ?thesis by auto
      next
        case (Some r)
        show ?thesis
        proof (cases "r = [] \<or> \<not> truthy hasFailures")
          case True
          with l Some have "st2 = st1" by (auto split: if_splits)
          then show ?thesis by simp
        next
          case False
          with l Some have "snd (getShortLinks env r st1) = st2" by simp
          with getShortLinks_only_calls [of env r st1] show ?thesis by simp
        qed
      qed
      with st1 have st2: "st2 = st\<lparr> calls := calls st2 \<rparr>"
        by (rule only_calls_trans)
      from p Inr hf l have "processMessage_resume env (i, entry, result) st =
          emit (CHECK_FINISHED (check entry))
            (emit (CHECK_SUCCESSFUL i (check entry) result1 links) st2)"
        by (simp add: processMessage_resume_def)
      with st2 show ?thesis by metis
    qed
  qed
qed

lemma map_of_Some_key: "map_of m i = Some v \<Longrightarrow> i \<in> fst ` set m"
  by (force dest: map_of_SomeD)

lemma armed_resume:
  assumes ok: "armed st" and s: "suspended st = Some k"
  shows "armed (processMessage_resume env k (st\<lparr> suspended := None \<rparr>))"
proof -
  obtain i entry result where k: "k = (i, entry, result)" by (cases k)
  let ?st0 = "st\<lparr> suspended := None \<rparr>"
  from ok have ok0: "armed ?st0" by (rule armed_unsuspend)
  from ok s k have known: "map_of (checks st) i = Some entry"
    and gone: "map_of (timeouts st) i = None"
    and fresh: "i \<notin> set (terminal_ids (events st))"
    by (simp_all add: armed_def terminal_ok_iff)
  from resume_shape [of env i entry result ?st0] show ?thesis
  proof (elim disjE exE)
    fix cs e
    assume "processMessage_resume env (i, entry, result) ?st0 = reject e (?st0\<lparr> calls := cs \<rparr>)"
    with ok0 show ?thesis by (simp add: k)
  next
    fix cs r l
    assume eq: "processMessage_resume env (i, entry, result) ?st0 =
      emit (CHECK_FINISHED (check entry))
        (emit (CHECK_SUCCESSFUL i (check entry) r l) (?st0\<lparr> calls := cs \<rparr>))"
    have "armed (emit (CHECK_FINISHED (check entry))
        (emit (CHECK_SUCCESSFUL i (check entry) r l) (?st0\<lparr> calls := cs \<rparr>)))"
      using ok0 map_of_Some_key [OF known] gone fresh
      by (intro armed_end) simp_all
    with eq k show ?thesis by simp
  qed
qed

lemma armed_begin:
  assumes ok: "armed st" and ns: "suspended st = None"
    and b: "processMessage_begin i subtopic message st = (k, st')"
  shows "armed (st'\<lparr> suspended := k \<rparr>)"
proof (cases "map_of (timeouts st) i")
  case None
  with b have "k = None" "st' = st" by (simp_all add: processMessage_begin_def)
  with ok show ?thesis by (simp add: armed_unsuspend)
next
  case (Some h)
  note live = armed_live [OF ok Some]
  show ?thesis
  proof (cases "map_of (checks st) i")
    case None
    with b Some have "k = None" "st' = st" by (simp_all add: processMessage_begin_def)
    with ok show ?thesis by (simp add: armed_unsuspend)
  next
    case entry: (Some entry)
    consider (rstart) "subtopic = ''run-start''" | (rend) "subtopic = ''run-end''"
      | (rerror) "subtopic = ''error''"
      | (other) "subtopic \<noteq> ''run-start''" "subtopic \<noteq> ''run-end''" "subtopic \<noteq> ''error''"
      by blast
    then show ?thesis
    proof cases
      case rstart
      with b Some entry have "k = None" "st' = emit (CHECK_INPROGRESS (check entry) i) st"
        by (simp_all add: processMessage_begin_def)
      with ok show ?thesis by (simp add: armed_unsuspend armed_emit_inprogress)
    next
      case rend
      show ?thesis
      proof (cases "get_prop message ''result''")
        case (Inl e)
        with b Some entry rend have "k = None" "st' = reject e (disableTimeout i st)"
          by (simp_all add: processMessage_begin_def)
        with ok show ?thesis by (simp add: armed_unsuspend armed_disableTimeout)
      next
        case (Inr result)
        with b Some entry rend have "k = Some (i, entry, result)" "st' = disableTimeout i st"
          by (simp_all add: processMessage_begin_def)
        moreover have "armed ((disableTimeout i st)\<lparr> suspended := Some (i, entry, result) \<rparr>)"
          using live entry
          by (intro armed_suspend armed_disableTimeout ok) (simp_all add: AList.delete_conv')
        ultimately show ?thesis by simp
      qed
    next
      case rerror
      with b Some entry have "k = None"
        "st' = emit (CHECK_FINISHED (check entry))
                 (emit (CHECK_FAILED i (check entry) message) (disableTimeout i st))"
        by (simp_all add: processMessage_begin_def)
      moreover have "armed (emit (CHECK_FINISHED (check entry))
                 (emit (CHECK_FAILED i (check entry) message) (disableTimeout i st)))"
        by (rule armed_disable_end [OF ok Some]) simp
      ultimately show ?thesis by (simp add: armed_unsuspend)
    next
      case other
      with b Some entry have "k = None" "st' = st" by (simp_all add: processMessage_begin_def)
      with ok show ?thesis by (simp add: armed_unsuspend)
    qed
  qed
qed

text \<open>What no step of a message or a timer changes.\<close>

lemma begin_frame:
  "processMessage_begin i subtopic message st = (k, st') \<Longrightarrow>
   phase st' = phase st \<and> socketClient st' = socketClient st \<and> checks st' = checks st \<and>
   queue_paused st' = queue_paused st \<and> (\<exists>es. events st' = events st @ es)"
  by (auto simp: processMessage_begin_def Let_def split: if_splits option.splits sum.splits)

lemma resume_frame:
  "phase (processMessage_resume env k st) = phase st \<and>
   socketClient (processMessage_resume env k st) = socketClient st \<and>
   checks (processMessage_resume env k st) = checks st \<and>
   queue_paused (processMessage_resume env k st) = queue_paused st \<and>
   (\<exists>es. events (processMessage_resume env k st) = events st @ es)"
proof -
  obtain i entry result where k: "k = (i, entry, result)" by (cases k)
  from resume_shape [of env i entry result st] show ?thesis
    unfolding k by (elim disjE exE) simp_all
qed

lemma fire_frame:
  "phase (fire h st) = phase st \<and> socketClient (fire h st) = socketClient st \<and>
   checks (fire h st) = checks st \<and> queue_paused (fire h st) = queue_paused st \<and>
   (\<exists>es. events (fire h st) = events st @ es)"
proof (cases "find (\<lambda>t. timer_id t = h) (timers st)")
  case None
  then show ?thesis by (simp add: fire_def)
next
  case (Some t)
  then show ?thesis
    by (cases "callback t")
       (simp_all add: fire_def check_timeout_callback_def scheduling_delay_callback_def Let_def)
qed

text \<open>Scheduling the checks.\<close>

lemma distinct_foldl_update:
  "distinct (map fst m) \<Longrightarrow>
   distinct (map fst (foldl (\<lambda>m kv. AList.update (fst kv) (snd kv) m) m kvs))"
  by (induction kvs arbitrary: m) (simp_all add: AList.distinct_update)

lemma distinct_new_Map: "distinct (map fst (new_Map kvs))"
  by (simp add: new_Map_def distinct_foldl_update)

lemma set_update_subset: "set (AList.update k v al) \<subseteq> insert (k, v) (set al)"
  by (induction al) auto

lemma arming_iff:
  "arming st \<longleftrightarrow>
     distinct (map timer_id (timers st)) \<and>
     (\<forall>t \<in> set (timers st). timer_id t < next_timer st \<and>
        (\<exists>i c. callback t = CheckTimeout i c \<and> map_of (timeouts st) i = Some (timer_id t))) \<and>
     (\<forall>e \<in> set (timeouts st). snd e < next_timer st)"
  unfolding arming_def
  by (intro conj_cong ball_cong refl) (auto split: timer_callback.splits)

lemma arm_check_eq:
  "arm_check st e =
     st\<lparr> timers := timers st @ [\<lparr> timer_id = next_timer st, delay_ms = timeout st * 1000,
                                  callback = CheckTimeout (fst e) (check (snd e)) \<rparr>],
         next_timer := Suc (next_timer st),
         timeouts := AList.update (fst e) (next_timer st) (timeouts st) \<rparr>"
  by (simp add: arm_check_def setTimeout_def)

lemma arming_arm_check:
  assumes a: "arming st" and new: "fst e \<notin> fst ` set (timeouts st)"
  shows "arming (arm_check st e)"
proof -
  let ?h = "next_timer st"
  let ?tm = "AList.update (fst e) ?h (timeouts st)"
  from a have d: "distinct (map timer_id (timers st))"
    and lt: "\<And>t. t \<in> set (timers st) \<Longrightarrow> timer_id t < ?h"
    and cb: "\<And>t. t \<in> set (timers st) \<Longrightarrow>
               \<exists>i c. callback t = CheckTimeout i c \<and> map_of (timeouts st) i = Some (timer_id t)"
    and h: "\<And>x. x \<in> set (timeouts st) \<Longrightarrow> snd x < ?h"
    by (auto simp: arming_iff)
  have "?h \<notin> timer_id ` set (timers st)" using lt by fastforce
  with d have 1: "distinct (map timer_id (timers st) @ [?h])" by simp
  have 2: "\<And>t. t \<in> set (timers st) \<Longrightarrow>
      \<exists>i c. callback t = CheckTimeout i c \<and> map_of ?tm i = Some (timer_id t)"
  proof -
    fix t assume t: "t \<in> set (timers st)"
    from cb [OF t] obtain i c where c: "callback t = CheckTimeout i c"
      and m: "map_of (timeouts st) i = Some (timer_id t)" by blast
    from m new have "i \<noteq> fst e" by (auto dest: map_of_Some_key)
    with m have "map_of ?tm i = Some (timer_id t)" by (simp add: AList.update_conv')
    with c show "\<exists>i c. callback t = CheckTimeout i c \<and> map_of ?tm i = Some (timer_id t)"
      by blast
  qed
  have 3: "map_of ?tm (fst e) = Some ?h" by (simp add: AList.update_conv')
  have 4: "\<And>x. x \<in> set ?tm \<Longrightarrow> snd x < Suc ?h"
    using set_update_subset [of "fst e" ?h "timeouts st"] h by fastforce
  have 5: "\<And>t. t \<in> set (timers st) \<Longrightarrow> timer_id t < Suc ?h"
    using lt by (simp add: less_Suc_eq)
  show ?thesis
    unfolding arm_check_eq arming_iff
    using 1 2 3 4 5 by simp
qed

lemma foldl_arm_check:
  "arming st \<Longrightarrow> distinct (map fst cs) \<Longrightarrow> fst ` set cs \<inter> fst ` set (timeouts st) = {} \<Longrightarrow>
   arming (foldl arm_check st cs) \<and>
   fst ` set (timeouts (foldl arm_check st cs)) = fst ` set (timeouts st) \<union> fst ` set cs"
proof (induction cs arbitrary: st)
  case Nil
  then show ?case by simp
next
  case (Cons e cs)
  from Cons.prems have new: "fst e \<notin> fst ` set (timeouts st)" by auto
  have keys: "fst ` set (timeouts (arm_check st e)) = insert (fst e) (fst ` set (timeouts st))"
    by (simp add: arm_check_eq AList.dom_update)
  from Cons.prems have "fst ` set cs \<inter> fst ` set (timeouts (arm_check st e)) = {}"
    unfolding keys by auto
  with Cons.IH [OF arming_arm_check [OF Cons.prems(1) new]] Cons.prems(2)
  show ?case unfolding keys by auto
qed

lemma foldl_arm_check_frame:
  "foldl arm_check st cs =
     st\<lparr> timers := timers (foldl arm_check st cs),
         next_timer := next_timer (foldl arm_check st cs),
         timeouts := timeouts (foldl arm_check st cs) \<rparr>"
proof (induction cs arbitrary: st)
  case Nil
  show ?case by simp
next
  case (Cons e cs)
  show ?case
    by (simp only: foldl_Cons) (subst Cons.IH, simp add: arm_check_eq)
qed

lemma setAllTimeouts_frame [simp]:
  "checks (setAllTimeouts st) = checks st"
  "events (setAllTimeouts st) = events st"
  "schedulingDelayExceededTimeout (setAllTimeouts st) = schedulingDelayExceededTimeout st"
  "suspended (setAllTimeouts st) = suspended st"
  "finished_listener (setAllTimeouts st) = finished_listener st"
  "inprogress_listener (setAllTimeouts st) = inprogress_listener st"
  "allFinished (setAllTimeouts st) = allFinished st"
  "resolve_calls (setAllTimeouts st) = resolve_calls st"
  "phase (setAllTimeouts st) = phase st"
  "socketClient (setAllTimeouts st) = socketClient st"
  "queue_paused (setAllTimeouts st) = queue_paused st"
  "testSessionId (setAllTimeouts st) = testSessionId st"
  unfolding setAllTimeouts_def by (subst foldl_arm_check_frame, simp)+

lemma startSchedulingDelayTimeout_eq:
  "startSchedulingDelayTimeout st =
     (if checks st = [] then st
      else st\<lparr> timers := timers st @ [\<lparr> timer_id = next_timer st,
                                       delay_ms = DEFAULT_SCHEDULING_DELAY_EXCEEDED_MS,
                                       callback = SchedulingDelayExceeded \<rparr>],
               next_timer := Suc (next_timer st),
               schedulingDelayExceededTimeout := Some (next_timer st),
               inprogress_listener := Some \<lparr> count = 0, numChecks = length (checks st) \<rparr> \<rparr>)"
  by (simp add: startSchedulingDelayTimeout_def setTimeout_def Let_def)

lemma allChecksFinished_eq:
  "allChecksFinished st =
     (if checks st = [] then st\<lparr> allFinished := Some Resolved \<rparr>
      else st\<lparr> allFinished := Some Pending,
               finished_listener := Some \<lparr> count = 0, numChecks = length (checks st) \<rparr> \<rparr>)"
  by (simp add: allChecksFinished_def Let_def)

lemma timers_ok_armed_start:
  assumes a: "arming st" and k: "fst ` set (timeouts st) \<subseteq> fst ` set (checks st)"
  shows "timers_ok (startSchedulingDelayTimeout st)"
proof -
  from a have d: "distinct (map timer_id (timers st))"
    and lt: "\<And>t. t \<in> set (timers st) \<Longrightarrow> timer_id t < next_timer st"
    and cb: "\<And>t. t \<in> set (timers st) \<Longrightarrow>
               \<exists>i c. callback t = CheckTimeout i c \<and> map_of (timeouts st) i = Some (timer_id t)"
    and h: "\<And>x. x \<in> set (timeouts st) \<Longrightarrow> snd x < next_timer st"
    by (auto simp: arming_iff)
  have 1: "next_timer st \<notin> timer_id ` set (timers st)" using lt by fastforce
  have 2: "next_timer st \<notin> snd ` set (timeouts st)" using h by fastforce
  have 3: "\<And>t i c. t \<in> set (timers st) \<Longrightarrow> callback t = CheckTimeout i c \<Longrightarrow>
      map_of (timeouts st) i = Some (timer_id t)"
    using cb by fastforce
  have 4: "\<And>t. t \<in> set (timers st) \<Longrightarrow> callback t \<noteq> SchedulingDelayExceeded"
    using cb by fastforce
  show ?thesis
    unfolding startSchedulingDelayTimeout_eq timers_ok_iff
    using d k 1 2 3 4 by auto
qed

lemma sched_pending_armed_start:
  assumes a: "arming st"
  shows "sched_pending (startSchedulingDelayTimeout st) \<longleftrightarrow> checks st \<noteq> []"
proof -
  from a have "\<And>t. t \<in> set (timers st) \<Longrightarrow> callback t \<noteq> SchedulingDelayExceeded"
    by (fastforce simp: arming_iff)
  then show ?thesis
    by (auto simp: startSchedulingDelayTimeout_eq sched_pending_def)
qed

lemma startSchedulingDelayTimeout_frame [simp]:
  "checks (startSchedulingDelayTimeout st) = checks st"
  "timeouts (startSchedulingDelayTimeout st) = timeouts st"
  "events (startSchedulingDelayTimeout st) = events st"
  "suspended (startSchedulingDelayTimeout st) = suspended st"
  "finished_listener (startSchedulingDelayTimeout st) = finished_listener st"
  "allFinished (startSchedulingDelayTimeout st) = allFinished st"
  "resolve_calls (startSchedulingDelayTimeout st) = resolve_calls st"
  "phase (startSchedulingDelayTimeout st) = phase st"
  "socketClient (startSchedulingDelayTimeout st) = socketClient st"
  "queue_paused (startSchedulingDelayTimeout st) = queue_paused st"
  by (simp_all add: startSchedulingDelayTimeout_eq)

lemma allChecksFinished_frame [simp]:
  "checks (allChecksFinished st) = checks st"
  "timeouts (allChecksFinished st) = timeouts st"
  "timers (allChecksFinished st) = timers st"
  "events (allChecksFinished st) = events st"
  "suspended (allChecksFinished st) = suspended st"
  "schedulingDelayExceededTimeout (allChecksFinished st) = schedulingDelayExceededTimeout st"
  "inprogress_listener (allChecksFinished st) = inprogress_listener st"
  "phase (allChecksFinished st) = phase st"
  "socketClient (allChecksFinished st) = socketClient st"
  "queue_paused (allChecksFinished st) = queue_paused st"
  by (simp_all add: allChecksFinished_eq)

lemma tracker_ok_start:
  assumes "events st = []" and "finished_listener st = None" and "resolve_calls st = 0"
  shows "tracker_ok (emit (RUN_STARTED cs sid) (allChecksFinished st))"
  using assms by (simp add: tracker_ok_def Let_def allChecksFinished_eq)

lemma run_schedule_ok:
  assumes u: "unarmed st" and ev: "events st = []"
    and s: "scheduleChecks env (checkRunSuiteId st) = Inr (sid, cs)"
  shows "armed (run_schedule env st)"
    and "phase (run_schedule env st) = Running"
    and "socketClient (run_schedule env st) = socketClient st"
    and "events (run_schedule env st) = [RUN_STARTED cs sid]"
proof -
  define m where
    "m = new_Map (map (\<lambda>c. (checkRunId c, \<lparr> check = check c, testResultId = testResultId c \<rparr>)) cs)"
  define st1 where "st1 = st\<lparr> testSessionId := sid, checks := m \<rparr>"
  define st2 where "st2 = setAllTimeouts st1"
  define st3 where "st3 = startSchedulingDelayTimeout st2"
  define st5 where "st5 = emit (RUN_STARTED cs sid) (allChecksFinished st3)"
  have rs: "run_schedule env st = st5\<lparr> queue_paused := False, phase := Running \<rparr>"
    by (simp add: run_schedule_def s Let_def st5_def st3_def st2_def st1_def m_def)
  have dm: "distinct (map fst m)" by (simp add: m_def distinct_new_Map)
  from u have a1: "arming st1" by (simp add: arming_iff unarmed_def st1_def)
  from u have f1: "checks st1 = m" "timeouts st1 = []" "events st1 = []" "suspended st1 = None"
    "finished_listener st1 = None" "inprogress_listener st1 = None" "resolve_calls st1 = 0"
    "socketClient st1 = socketClient st"
    using ev by (simp_all add: unarmed_def st1_def)
  from foldl_arm_check [OF a1, of m] dm f1
  have a2: "arming st2" and k2: "fst ` set (timeouts st2) = fst ` set m"
    by (simp_all add: setAllTimeouts_def st2_def)
  have f2: "checks st2 = m" "events st2 = []" "suspended st2 = None"
    "finished_listener st2 = None" "inprogress_listener st2 = None" "resolve_calls st2 = 0"
    "socketClient st2 = socketClient st"
    using f1 by (simp_all add: st2_def)
  from k2 f2 have "fst ` set (timeouts st2) \<subseteq> fst ` set (checks st2)" by simp
  then have t3: "timers_ok st3" unfolding st3_def by (rule timers_ok_armed_start [OF a2])
  have p3: "sched_pending st3 \<longleftrightarrow> m \<noteq> []"
    using sched_pending_armed_start [OF a2] f2 by (simp add: st3_def)
  have f3: "checks st3 = m" "events st3 = []" "suspended st3 = None"
    "finished_listener st3 = None" "resolve_calls st3 = 0" "socketClient st3 = socketClient st"
    using f2 by (simp_all add: st3_def)
  have i3: "inprogress_listener st3 =
      (if m = [] then None else Some \<lparr> count = 0, numChecks = length m \<rparr>)"
    using f2 by (simp add: st3_def startSchedulingDelayTimeout_eq)
  have "timers_ok (allChecksFinished st3)"
    using t3 by (simp add: timers_ok_cong [of "allChecksFinished st3" st3])
  then have "timers_ok st5" unfolding st5_def by (rule timers_ok_emit)
  moreover have "terminal_ok st5"
    using f3 dm by (simp add: terminal_ok_iff st5_def)
  moreover have "tracker_ok st5"
    unfolding st5_def using f3 by (intro tracker_ok_start) simp_all
  moreover have "sched_pending st5 = sched_pending st3"
    by (rule sched_pending_frame) (simp add: st5_def)
  then have "monitor_ok st5"
    using f3 i3 p3 by (simp add: monitor_ok_def Let_def st5_def)
  ultimately have "armed st5" by (simp add: armed_def)
  then show "armed (run_schedule env st)" by (simp add: rs)
  show "phase (run_schedule env st) = Running" by (simp add: rs)
  show "socketClient (run_schedule env st) = socketClient st"
    using f3 by (simp add: rs st5_def)
  show "events (run_schedule env st) = [RUN_STARTED cs sid]"
    using f3 by (simp add: rs st5_def)
qed

text \<open>Disabling every timeout.\<close>

lemma foldl_disable_timers_ok:
  "timers_ok st \<Longrightarrow> timers_ok (foldl (\<lambda>s e. disableTimeout (fst e) s) st cs)"
  by (induction cs arbitrary: st) (simp_all add: timers_ok_disableTimeout)

lemma foldl_disable_frame [simp]:
  "checks (foldl (\<lambda>s e. disableTimeout (fst e) s) st cs) = checks st"
  "schedulingDelayExceededTimeout (foldl (\<lambda>s e. disableTimeout (fst e) s) st cs) =
     schedulingDelayExceededTimeout st"
  "events (foldl (\<lambda>s e. disableTimeout (fst e) s) st cs) = events st"
  "phase (foldl (\<lambda>s e. disableTimeout (fst e) s) st cs) = phase st"
  "socketClient (foldl (\<lambda>s e. disableTimeout (fst e) s) st cs) = socketClient st"
  by (induction cs arbitrary: st) simp_all

lemma foldl_disable_timeouts:
  "timeouts (foldl (\<lambda>s e. disableTimeout (fst e) s) st cs) =
     filter (\<lambda>e. fst e \<notin> fst ` set cs) (timeouts st)"
proof (induction cs arbitrary: st)
  case Nil
  show ?case by simp
next
  case (Cons c cs)
  have "filter (\<lambda>e. fst e \<notin> fst ` set cs) (AList.delete (fst c) (timeouts st)) =
      filter (\<lambda>e. fst e \<notin> fst ` set (c # cs)) (timeouts st)"
    by (auto simp: AList.delete_eq intro: filter_cong)
  with Cons.IH [of "disableTimeout (fst c) st"] show ?case by simp
qed

lemma disableAllTimeouts_unarmed: "unarmed st \<Longrightarrow> disableAllTimeouts st = st"
  by (simp add: disableAllTimeouts_def unarmed_def)

lemma disableAllTimeouts_frame [simp]:
  "checks (disableAllTimeouts st) = checks st"
  "events (disableAllTimeouts st) = events st"
  "phase (disableAllTimeouts st) = phase st"
  "socketClient (disableAllTimeouts st) = socketClient st"
  by (simp_all add: disableAllTimeouts_def Let_def clearTimeout_def split: option.splits)

lemma disableAllTimeouts_clears:
  assumes ok: "timers_ok st"
  shows "timeouts (disableAllTimeouts st) = []"
    and "timers (disableAllTimeouts st) = []"
    and "schedulingDelayExceededTimeout (disableAllTimeouts st) = None"
proof -
  define st1 where "st1 = foldl (\<lambda>s e. disableTimeout (fst e) s) st (checks st)"
  have ok1: "timers_ok st1" unfolding st1_def by (rule foldl_disable_timers_ok [OF ok])
  from ok have "\<And>e. e \<in> set (timeouts st) \<Longrightarrow> fst e \<in> fst ` set (checks st)"
    by (auto simp: timers_ok_iff)
  then have none: "timeouts st1 = []"
    unfolding st1_def foldl_disable_timeouts by (simp add: filter_empty_conv)
  have only: "\<And>t. t \<in> set (timers st1) \<Longrightarrow>
      schedulingDelayExceededTimeout st1 = Some (timer_id t)"
  proof -
    fix t assume t: "t \<in> set (timers st1)"
    show "schedulingDelayExceededTimeout st1 = Some (timer_id t)"
    proof (cases "callback t")
      case (CheckTimeout i c)
      with ok1 t none show ?thesis by (auto simp: timers_ok_iff)
    next
      case SchedulingDelayExceeded
      with ok1 t show ?thesis by (auto simp: timers_ok_iff)
    qed
  qed
  have eq: "disableAllTimeouts st =
      (case schedulingDelayExceededTimeout st1 of
         None \<Rightarrow> st1
       | Some h \<Rightarrow> (clearTimeout (Some h) st1)\<lparr> schedulingDelayExceededTimeout := None \<rparr>)"
    by (simp add: disableAllTimeouts_def st1_def Let_def split: option.splits)
  show "timeouts (disableAllTimeouts st) = []"
    using none by (simp add: eq clearTimeout_def split: option.splits)
  show "schedulingDelayExceededTimeout (disableAllTimeouts st) = None"
    by (simp add: eq split: option.splits)
  show "timers (disableAllTimeouts st) = []"
  proof (cases "schedulingDelayExceededTimeout st1")
    case None
    have "timers st1 = []"
    proof (cases "timers st1")
      case Nil
      then show ?thesis .
    next
      case (Cons t ts)
      with only [of t] None show ?thesis by simp
    qed
    with None show ?thesis by (simp add: eq)
  next
    case (Some h)
    with only have "\<And>t. t \<in> set (timers st1) \<Longrightarrow> timer_id t = h" by auto
    then have "filter (\<lambda>t. timer_id t \<noteq> h) (timers st1) = []"
      by (simp add: filter_empty_conv)
    with Some show ?thesis by (simp add: eq clearTimeout_def)
  qed
qed

text \<open>The three parts of \<^verbatim>\<open>run\<close>.\<close>

lemma run_catch_unarmed:
  assumes u: "unarmed st" and ev: "events st = []"
  shows "unarmed (run_catch err st)" and "events (run_catch err st) = [ERROR err]"
    and "phase (run_catch err st) = TerminalError"
    and "socketClient (run_catch err st) \<noteq> SocketOpen"
  using u ev
  by (simp_all add: run_catch_def disableAllTimeouts_unarmed run_finally_def Let_def unarmed_def)

lemma inv_run_connect:
  assumes i: "run_inv st" and p: "phase st = Idle"
  shows "run_inv (run_connect env st)"
proof -
  from i p have u: "unarmed st" and ev: "events st = []" by (simp_all add: run_inv_def)
  show ?thesis
  proof (cases "connect env")
    case (Some err)
    have "unarmed (st\<lparr> socketClient := NoSocket \<rparr>)" "events (st\<lparr> socketClient := NoSocket \<rparr>) = []"
      using u ev by (simp_all add: unarmed_def)
    from run_catch_unarmed [OF this, of err] Some show ?thesis
      by (auto simp: run_inv_def run_connect_def)
  next
    case None
    let ?st1 = "st\<lparr> socketClient := SocketOpen, checkRunSuiteId := uuid_v4 env \<rparr>"
    have u1: "unarmed ?st1" "events ?st1 = []" using u ev by (simp_all add: unarmed_def)
    show ?thesis
    proof (cases "subscribe env (topic_pattern (accountId st) (uuid_v4 env))")
      case (Some err)
      from run_catch_unarmed [OF u1, of err] None Some show ?thesis
        by (auto simp: run_inv_def run_connect_def Let_def)
    next
      case n: None
      with None u ev show ?thesis
        by (simp add: run_inv_def run_connect_def Let_def unarmed_def)
    qed
  qed
qed

lemma inv_run_schedule:
  assumes i: "run_inv st" and p: "phase st = Listening"
  shows "run_inv (run_schedule env st)"
proof -
  from i p have u: "unarmed st" and ev: "events st = []" and so: "socketClient st = SocketOpen"
    by (simp_all add: run_inv_def)
  show ?thesis
  proof (cases "scheduleChecks env (checkRunSuiteId st)")
    case (Inl err)
    from run_catch_unarmed [OF u ev, of err] Inl show ?thesis
      by (auto simp: run_inv_def run_schedule_def)
  next
    case (Inr r)
    obtain sid cs where r: "r = (sid, cs)" by (cases r)
    from run_schedule_ok [OF u ev Inr [unfolded r]] so show ?thesis
      by (simp add: run_inv_def)
  qed
qed

lemma inv_run_finish:
  assumes i: "run_inv st" and p: "phase st = Running" and r: "allFinished st = Some Resolved"
  shows "run_inv (run_finish st)"
proof -
  from i p have a: "armed st" and so: "socketClient st = SocketOpen" by (simp_all add: run_inv_def)
  from a r have "length (checks st) \<le> length (filter is_finished (events st))"
    by (auto simp: armed_def tracker_ok_def Let_def split: if_splits)
  moreover have "armed (emit (RUN_FINISHED (testSessionId st)) st)"
    using a by (rule armed_emit_plain) simp_all
  ultimately show ?thesis
    using so by (simp add: run_inv_def run_finish_def run_finally_def Let_def)
qed

text \<open>Every step keeps the invariant.\<close>

lemma run_inv_cases:
  "run_inv st \<Longrightarrow>
   (unarmed st \<and> phase st \<noteq> Running \<and> phase st \<noteq> TerminalSuccess) \<or>
   (armed st \<and> (phase st = Running \<or> phase st = TerminalSuccess))"
  by (cases "phase st") (simp_all add: run_inv_def)

lemma run_inv_armed_step:
  assumes i: "run_inv st" and a: "armed st'"
    and ph: "phase st = Running \<or> phase st = TerminalSuccess"
    and f: "phase st' = phase st" "socketClient st' = socketClient st" "checks st' = checks st"
      "\<exists>es. events st' = events st @ es"
  shows "run_inv st'"
proof -
  from f(4) obtain es where es: "events st' = events st @ es" by blast
  from ph show ?thesis
  proof
    assume "phase st = Running"
    with i a f show ?thesis by (simp add: run_inv_def)
  next
    assume "phase st = TerminalSuccess"
    with i a f es show ?thesis by (simp add: run_inv_def)
  qed
qed

lemma run_inv_queue_tasks: "run_inv (st\<lparr> queue_tasks := q \<rparr>) = run_inv st"
  by (cases "phase st") (simp_all add: run_inv_def unarmed_def)

lemma run_inv_dequeue:
  assumes i: "run_inv st"
  shows "run_inv (step env st Dequeue)"
proof (cases "queue_paused st \<or> suspended st \<noteq> None \<or> queue_tasks st = []")
  case True
  with i show ?thesis by (auto split: list.splits)
next
  case False
  then obtain i' subtopic message ts where q: "queue_tasks st = (i', subtopic, message) # ts"
    by (cases "queue_tasks st") auto
  from False have ns: "suspended st = None" and np: "\<not> queue_paused st"
    by (cases "suspended st", auto)
  let ?st0 = "st\<lparr> queue_tasks := ts \<rparr>"
  obtain k st' where b: "processMessage_begin i' subtopic message ?st0 = (k, st')" by force
  from ns np q b have s: "step env st Dequeue = st'\<lparr> suspended := k \<rparr>" by simp
  from i have i0: "run_inv ?st0" by (simp add: run_inv_queue_tasks)
  from run_inv_cases [OF i] np have a: "armed st"
    and ph: "phase st = Running \<or> phase st = TerminalSuccess"
    by (auto simp: unarmed_def)
  from a have a0: "armed ?st0" by simp
  from ns have "suspended ?st0 = None" by simp
  from armed_begin [OF a0 this b] have a': "armed (st'\<lparr> suspended := k \<rparr>)" .
  from begin_frame [OF b] ph show ?thesis
    unfolding s by (intro run_inv_armed_step [OF i0 a']) simp_all
qed

lemma run_inv_resume:
  assumes i: "run_inv st"
  shows "run_inv (step env st Resume)"
proof (cases "suspended st")
  case None
  with i show ?thesis by simp
next
  case (Some k)
  let ?st0 = "st\<lparr> suspended := None \<rparr>"
  from run_inv_cases [OF i] Some have a: "armed st"
    and ph: "phase st = Running \<or> phase st = TerminalSuccess"
    by (auto simp: unarmed_def)
  from armed_resume [OF a Some] have a': "armed (processMessage_resume env k ?st0)" .
  from resume_frame [of env k ?st0] ph Some show ?thesis
    by (simp only: step.simps option.case) (intro run_inv_armed_step [OF i a'], simp_all)
qed

lemma run_inv_fire:
  assumes i: "run_inv st"
  shows "run_inv (step env st (Fire h))"
proof -
  from run_inv_cases [OF i] show ?thesis
  proof
    assume "unarmed st \<and> phase st \<noteq> Running \<and> phase st \<noteq> TerminalSuccess"
    then have "fire h st = st" by (simp add: fire_def unarmed_def)
    with i show ?thesis by simp
  next
    assume "armed st \<and> (phase st = Running \<or> phase st = TerminalSuccess)"
    then have a: "armed st" and ph: "phase st = Running \<or> phase st = TerminalSuccess"
      by simp_all
    from fire_frame [of h st] ph show ?thesis
      by (simp only: step.simps) (intro run_inv_armed_step [OF i armed_fire [OF a]], simp_all)
  qed
qed

lemma run_inv_step: "run_inv st \<Longrightarrow> run_inv (step env st a)"
proof (cases a)
  case RunConnect
  assume "run_inv st"
  with RunConnect show ?thesis by (simp add: inv_run_connect)
next
  case RunSchedule
  assume "run_inv st"
  with RunSchedule show ?thesis by (simp add: inv_run_schedule)
next
  case RunFinish
  assume "run_inv st"
  with RunFinish show ?thesis by (simp add: inv_run_finish)
next
  case (Deliver i subtopic message)
  assume "run_inv st"
  with Deliver show ?thesis by (simp add: run_inv_queue_tasks)
next
  case Dequeue
  assume "run_inv st"
  with Dequeue show ?thesis by (simp only: run_inv_dequeue)
next
  case Resume
  assume "run_inv st"
  with Resume show ?thesis by (simp only: run_inv_resume)
next
  case (Fire h)
  assume "run_inv st"
  with Fire show ?thesis by (simp only: run_inv_fire)
qed

lemma run_inv_constructor: "run_inv (constructor account t v)"
  by (simp add: run_inv_def constructor_def unarmed_def)

lemma run_inv_exec: "run_inv st \<Longrightarrow> run_inv (exec env st as)"
  unfolding exec_def by (induction as arbitrary: st) (simp_all add: run_inv_step)

lemma run_inv_reachable: "run_inv (exec env (constructor account t v) as)"
  by (rule run_inv_exec [OF run_inv_constructor])

text \<open>The timeout message.\<close>

lemma digit_char: "n < 10 \<Longrightarrow> ''0123456789'' ! n \<in> set ''0123456789''"
  by (rule nth_mem) simp

lemma set_nat_to_string: "set (nat_to_string n) \<subseteq> set ''0123456789''"
proof (induction n rule: nat_to_string.induct)
  case (1 n)
  show ?case
  proof (cases "n < 10")
    case True
    with digit_char [of n] show ?thesis by (subst nat_to_string.simps) simp
  next
    case False
    have "n mod 10 < 10" by simp
    from digit_char [OF this] 1 [OF False] False show ?thesis
      by (subst nat_to_string.simps) simp
  qed
qed

lemma C_notin_number: "CHR ''C'' \<notin> set (number_to_string i)"
proof -
  have "CHR ''C'' \<notin> set ''0123456789''" by simp
  with set_nat_to_string have "\<And>n. CHR ''C'' \<notin> set (nat_to_string n)" by blast
  then show ?thesis by (simp add: number_to_string_def)
qed

lemma C_in_guidance: "CHR ''C'' \<in> set support_guidance"
  by (simp add: support_guidance_def)

lemma guidance_not_in_plain:
  "\<not> sublist support_guidance
       (''Reached timeout of '' @ number_to_string i @ '' seconds waiting for check result.'')"
proof
  assume "sublist support_guidance
       (''Reached timeout of '' @ number_to_string i @ '' seconds waiting for check result.'')"
  then have "set support_guidance \<subseteq>
      set (''Reached timeout of '' @ number_to_string i @ '' seconds waiting for check result.'')"
    by (rule set_mono_sublist)
  with C_in_guidance have "CHR ''C'' \<in>
      set (''Reached timeout of '' @ number_to_string i @ '' seconds waiting for check result.'')"
    by blast
  with C_notin_number [of i] show False by simp
qed

lemma guidance_iff:
  "sublist support_guidance (timeout_error_message x) \<longleftrightarrow> x = DEFAULT_CHECK_RUN_TIMEOUT_SECONDS"
proof (cases "x = DEFAULT_CHECK_RUN_TIMEOUT_SECONDS")
  case True
  have "sublist support_guidance
      ((''Reached timeout of '' @ number_to_string x @ '' seconds waiting for check result.'')
        @ support_guidance)"
    by (rule sublist_append_leftI)
  with True show ?thesis by (simp add: timeout_error_message_def Let_def)
next
  case False
  with guidance_not_in_plain [of x] show ?thesis
    by (simp add: timeout_error_message_def Let_def)
qed

lemma fire_check_any:
  assumes f: "find (\<lambda>t. timer_id t = h) (timers st) = Some t"
    and cb: "callback t = CheckTimeout i c"
  shows "fire h st =
      emit (CHECK_FINISHED c)
        (emit (CHECK_FAILED i c (JStr (timeout_error_message (timeout st))))
           (st\<lparr> timers := filter (\<lambda>t. timer_id t \<noteq> h) (timers st),
                timeouts := AList.delete i (timeouts st) \<rparr>))"
  by (simp add: fire_def f cb check_timeout_callback_def Let_def)

subsection \<open>The example run\<close>

lemma running_eq:
  "running =
     \<lparr> checks = [(''a'', \<lparr> check = ''check-a'', testResultId = Some ''result-a'' \<rparr>),
                 (''b'', \<lparr> check = ''check-b'', testResultId = None \<rparr>)],
       testSessionId = Some ''session'', timeouts = [(''a'', 0), (''b'', 1)],
       schedulingDelayExceededTimeout = Some 2,
       accountId = ''account'', timeout = 300, verbose = False,
       queue_paused = False, queue_tasks = [], suspended = None, rejections = [],
       events = [RUN_STARTED
          [\<lparr> check = ''check-a'', testResultId = Some ''result-a'', checkRunId = ''a'' \<rparr>,
           \<lparr> check = ''check-b'', testResultId = None, checkRunId = ''b'' \<rparr>]
          (Some ''session'')],
       finished_listener = Some \<lparr> count = 0, numChecks = 2 \<rparr>,
       inprogress_listener = Some \<lparr> count = 0, numChecks = 2 \<rparr>,
       allFinished = Some Pending, resolve_calls = 0,
       timers = [\<lparr> timer_id = 0, delay_ms = 300000, callback = CheckTimeout ''a'' ''check-a'' \<rparr>,
                 \<lparr> timer_id = 1, delay_ms = 300000, callback = CheckTimeout ''b'' ''check-b'' \<rparr>,
                 \<lparr> timer_id = 2, delay_ms = 20000, callback = SchedulingDelayExceeded \<rparr>],
       next_timer = 3, phase = Running, socketClient = SocketOpen,
       checkRunSuiteId = ''suite'',
       subscription = Some ''account/account/ad-hoc-check-results/suite/+/+'',
       calls = [] \<rparr>"
  by code_simp

lemma running_reachable:
  "running = exec example_env (constructor ''account'' 300 False) [RunConnect, RunSchedule]"
  by (simp add: running_def example_start_def)

subsection \<open>A whole call of \<open>processMessage\<close> is a task of the queue run to its end\<close>

lemma begin_suspended:
  "processMessage_begin i subtopic message st = (k, st') \<Longrightarrow> suspended st' = suspended st"
  by (auto simp: processMessage_begin_def Let_def split: if_splits option.splits sum.splits)

lemma dequeue_resume:
  assumes q: "queue_tasks st = (i, subtopic, message) # ts"
    and np: "\<not> queue_paused st" and ns: "suspended st = None"
  shows "step env (step env st Dequeue) Resume =
     processMessage env i subtopic message (st\<lparr> queue_tasks := ts \<rparr>)"
proof -
  let ?st0 = "st\<lparr> queue_tasks := ts \<rparr>"
  obtain k st' where b: "processMessage_begin i subtopic message ?st0 = (k, st')" by force
  from begin_suspended [OF b] ns have s: "suspended st' = None" by simp
  then have id: "st'\<lparr> suspended := None \<rparr> = st'" by simp
  from q np ns b have d: "step env st Dequeue = st'\<lparr> suspended := k \<rparr>" by simp
  have "step env (st'\<lparr> suspended := k \<rparr>) Resume =
      (case k of None \<Rightarrow> st' | Some c \<Rightarrow> processMessage_resume env c st')"
  proof (cases k)
    case None
    with s show ?thesis by simp
  next
    case (Some c)
    with id show ?thesis by simp
  qed
  moreover have "processMessage env i subtopic message ?st0 =
      (case k of None \<Rightarrow> st' | Some c \<Rightarrow> processMessage_resume env c st')"
    using b by (simp add: processMessage_def)
  ultimately show ?thesis by (simp only: d)
qed

subsection \<open>Messages that are discarded\<close>

lemma processMessage_begin_discard:
  "map_of (timeouts st) i = None \<or> map_of (checks st) i = None \<Longrightarrow>
   processMessage_begin i subtopic message st = (None, st)"
  by (auto simp: processMessage_begin_def)

lemma processMessage_discard:
  "map_of (timeouts st) i = None \<or> map_of (checks st) i = None \<Longrightarrow>
   processMessage env i subtopic message st = st"
  by (simp add: processMessage_def processMessage_begin_discard)

lemma resume_timeouts:
  "timeouts (processMessage_resume env k st) = timeouts st"
proof -
  obtain i entry result where k: "k = (i, entry, result)" by (cases k)
  from resume_shape [of env i entry result st] show ?thesis
    unfolding k by (elim disjE exE) simp_all
qed

lemma run_end_gone:
  assumes "map_of (timeouts st) i = Some h" and "map_of (checks st) i = Some entry"
  shows "map_of (timeouts (processMessage env i ''run-end'' message st)) i = None"
  using assms
  by (cases "get_prop message ''result''")
     (simp_all add: processMessage_def processMessage_begin_def resume_timeouts
        AList.delete_conv')

lemma run_end_twice:
  "processMessage env i subtopic' message' (processMessage env i ''run-end'' message st) =
   processMessage env i ''run-end'' message st"
proof (cases "map_of (timeouts st) i = None \<or> map_of (checks st) i = None")
  case True
  then show ?thesis by (simp add: processMessage_discard)
next
  case False
  then obtain h entry where "map_of (timeouts st) i = Some h" "map_of (checks st) i = Some entry"
    by auto
  from run_end_gone [OF this] show ?thesis by (simp add: processMessage_discard)
qed

text \<open>
  C3. A message whose \<open>checkRunId\<close> has no timeout entry, or has one but no check record,
  is discarded: processing it leaves the whole state as it was, so no event is emitted
  and no map or counter changes, whatever the subtopic. In particular, once a \<open>run-end\<close>
  for a check has been processed, any further message for that check changes nothing.
\<close>

theorem discarded_message:
  "(map_of (timeouts st) i = None \<or> map_of (checks st) i = None \<longrightarrow>
      processMessage env i subtopic message st = st) \<and>
   processMessage env i subtopic' message' (processMessage env i ''run-end'' message st) =
     processMessage env i ''run-end'' message st"
  using processMessage_discard [of st i env subtopic message]
    run_end_twice [of env i subtopic' message' message st]
  by blast

theorem discarded_message_witness:
  "(map_of (timeouts running) ''c'' = None \<or> map_of (checks running) ''c'' = None) \<and>
   processMessage example_env ''c'' ''run-end'' failed_result running = running"
proof -
  have h: "map_of (timeouts running) ''c'' = None \<or> map_of (checks running) ''c'' = None"
    by (simp add: running_eq)
  with discarded_message [of running "''c''" example_env "''run-end''" failed_result]
  show ?thesis by blast
qed

text \<open>
  C8. Disabling the timeout of a \<open>checkRunId\<close> that has no entry leaves the state as it
  was, and disabling twice gives the state that disabling once gives.
\<close>

theorem disableTimeout_idempotent:
  "(map_of (timeouts st) k = None \<longrightarrow> disableTimeout k st = st) \<and>
   disableTimeout k (disableTimeout k st) = disableTimeout k st"
  using disableTimeout_absent [of st k]
    disableTimeout_absent [of "disableTimeout k st" k, OF map_of_disableTimeout_same]
  by blast

theorem disableTimeout_idempotent_witness:
  "map_of (timeouts running) ''c'' = None \<and> disableTimeout ''c'' running = running \<and>
   disableTimeout ''a'' (disableTimeout ''a'' running) = disableTimeout ''a'' running"
proof -
  have h: "map_of (timeouts running) ''c'' = None" by (simp add: running_eq)
  with disableTimeout_idempotent [of running "''c''"]
    disableTimeout_idempotent [of running "''a''"]
  show ?thesis by blast
qed

text \<open>
  C10. A \<open>run-end\<close> message for a check that has a timeout entry and a check record, whose
  result has no \<open>assets\<close>, makes \<open>processMessage\<close> throw a \<open>TypeError\<close>: the timeout has
  been disabled, nothing is fetched and no event is emitted. The branch is reached by a
  message delivered to a running batch.
\<close>

theorem run_end_without_assets:
  "(map_of (timeouts st) i = Some h \<and> map_of (checks st) i = Some entry \<and>
    get_prop message ''result'' = Inr result \<and> get_prop result ''assets'' = Inr JUndefined \<longrightarrow>
      processMessage env i ''run-end'' message st = reject TypeError (disableTimeout i st) \<and>
      events (processMessage env i ''run-end'' message st) = events st \<and>
      calls (processMessage env i ''run-end'' message st) = calls st \<and>
      rejections (processMessage env i ''run-end'' message st) = rejections st @ [TypeError]) \<and>
   rejections (exec example_env running [Deliver ''a'' ''run-end'' bare_result, Dequeue, Resume])
     = [TypeError] \<and>
   events (exec example_env running [Deliver ''a'' ''run-end'' bare_result, Dequeue, Resume])
     = events running"
proof -
  have "rejections (exec example_env running [Deliver ''a'' ''run-end'' bare_result, Dequeue, Resume])
     = [TypeError]"
    by code_simp
  moreover have "events (exec example_env running [Deliver ''a'' ''run-end'' bare_result, Dequeue, Resume])
     = events running"
    by code_simp
  moreover have "map_of (timeouts st) i = Some h \<Longrightarrow> map_of (checks st) i = Some entry \<Longrightarrow>
    get_prop message ''result'' = Inr result \<Longrightarrow> get_prop result ''assets'' = Inr JUndefined \<Longrightarrow>
      processMessage env i ''run-end'' message st = reject TypeError (disableTimeout i st)"
    by (simp add: processMessage_def processMessage_begin_def processMessage_resume_def
          processCheckResult_def)
  ultimately show ?thesis by simp
qed

theorem run_end_without_assets_witness:
  "map_of (timeouts running) ''a'' = Some 0 \<and>
   map_of (checks running) ''a'' = Some \<lparr> check = ''check-a'', testResultId = Some ''result-a'' \<rparr> \<and>
   get_prop bare_result ''result'' = Inr (JObj [(''hasFailures'', JBool False)]) \<and>
   get_prop (JObj [(''hasFailures'', JBool False)]) ''assets'' = Inr JUndefined \<and>
   processMessage example_env ''a'' ''run-end'' bare_result running =
     reject TypeError (disableTimeout ''a'' running)"
proof -
  have h: "map_of (timeouts running) ''a'' = Some 0 \<and>
   map_of (checks running) ''a'' = Some \<lparr> check = ''check-a'', testResultId = Some ''result-a'' \<rparr> \<and>
   get_prop bare_result ''result'' = Inr (JObj [(''hasFailures'', JBool False)]) \<and>
   get_prop (JObj [(''hasFailures'', JBool False)]) ''assets'' = Inr JUndefined"
    by (simp add: running_eq bare_result_def)
  with run_end_without_assets [of running "''a''" 0
      "\<lparr> check = ''check-a'', testResultId = Some ''result-a'' \<rparr>" bare_result
      "JObj [(''hasFailures'', JBool False)]" example_env]
  show ?thesis by blast
qed

subsection \<open>The decimal text of the timeout\<close>

lemma digit_value: "d < 10 \<Longrightarrow> (of_char (''0123456789'' ! d) :: nat) - 48 = d"
proof -
  assume "d < 10"
  then have "d \<in> {0, 1, 2, 3, 4, 5, 6, 7, 8, 9}" by auto
  then show ?thesis by auto
qed

lemma digit_not_zero: "d < 10 \<Longrightarrow> d \<noteq> 0 \<Longrightarrow> ''0123456789'' ! d \<noteq> CHR ''0''"
proof -
  assume "d < 10" and "d \<noteq> 0"
  then have "d \<in> {1, 2, 3, 4, 5, 6, 7, 8, 9}" by auto
  then show ?thesis by auto
qed

lemma decimal_value_snoc:
  "decimal_value (xs @ [c]) = 10 * decimal_value xs + (of_char c - 48)"
  by (simp add: decimal_value_def)

lemma nat_to_string_nonempty: "nat_to_string n \<noteq> []"
  by (subst nat_to_string.simps) simp

lemma decimal_nat_to_string: "decimal_value (nat_to_string n) = n"
proof (induction n rule: nat_to_string.induct)
  case (1 n)
  show ?case
  proof (cases "n < 10")
    case True
    then show ?thesis
      by (subst nat_to_string.simps) (simp add: decimal_value_def digit_value)
  next
    case False
    have "n mod 10 < 10" by simp
    from digit_value [OF this] 1 [OF False] False show ?thesis
      by (subst nat_to_string.simps) (simp add: decimal_value_snoc)
  qed
qed

lemma hd_nat_to_string: "n \<noteq> 0 \<Longrightarrow> hd (nat_to_string n) \<noteq> CHR ''0''"
proof (induction n rule: nat_to_string.induct)
  case (1 n)
  show ?case
  proof (cases "n < 10")
    case True
    with "1.prems" digit_not_zero [of n] show ?thesis
      by (subst nat_to_string.simps) simp
  next
    case False
    then have "n div 10 \<noteq> 0" by simp
    from 1(1) [OF False this] False nat_to_string_nonempty [of "n div 10"] show ?thesis
      by (subst nat_to_string.simps) simp
  qed
qed

lemma number_to_string_decimal:
  "\<exists>ds. number_to_string x = (if x < 0 then CHR ''-'' # ds else ds) \<and> ds \<noteq> [] \<and>
        set ds \<subseteq> set ''0123456789'' \<and> decimal_value ds = nat \<bar>x\<bar> \<and>
        (x \<noteq> 0 \<longrightarrow> hd ds \<noteq> CHR ''0'')"
proof (cases "x < 0")
  case True
  then have "nat (- x) \<noteq> 0" by simp
  from hd_nat_to_string [OF this] True set_nat_to_string [of "nat (- x)"] show ?thesis
    by (intro exI [of _ "nat_to_string (nat (- x))"])
       (simp add: number_to_string_def nat_to_string_nonempty decimal_nat_to_string)
next
  case False
  then have "x \<noteq> 0 \<Longrightarrow> nat x \<noteq> 0" by simp
  with hd_nat_to_string [of "nat x"] False set_nat_to_string [of "nat x"] show ?thesis
    by (intro exI [of _ "nat_to_string (nat x)"])
       (simp add: number_to_string_def nat_to_string_nonempty decimal_nat_to_string)
qed

text \<open>
  C6. When the timer armed for a check fires, its callback deletes the check's entry of
  \<open>timeouts\<close>, emits the failed event with the timeout message and then the finished
  event. For a timeout that is a safe integer, the message is the fixed text around the
  decimal numeral of the configured number of seconds (its digits, without a leading
  zero, after a minus sign if it is negative), and it contains the support guidance
  exactly when the timeout is the default, 300. The messages for 300 and for 120 seconds
  are written out.
\<close>

theorem timeout_callback:
  "(find (\<lambda>t. timer_id t = h) (timers st) = Some t \<and> callback t = CheckTimeout i c \<and>
    \<bar>timeout st\<bar> \<le> MAX_SAFE_INTEGER \<longrightarrow>
      timeouts (fire h st) = AList.delete i (timeouts st) \<and>
      map_of (timeouts (fire h st)) i = None \<and>
      events (fire h st) =
        events st @ [CHECK_FAILED i c (JStr (timeout_error_message (timeout st))),
                     CHECK_FINISHED c]) \<and>
   (\<bar>x\<bar> \<le> MAX_SAFE_INTEGER \<longrightarrow>
      timeout_error_message x =
        ''Reached timeout of '' @ number_to_string x @ '' seconds waiting for check result.'' @
        (if x = 300 then support_guidance else []) \<and>
      (\<exists>ds. number_to_string x = (if x < 0 then CHR ''-'' # ds else ds) \<and> ds \<noteq> [] \<and>
            set ds \<subseteq> set ''0123456789'' \<and> decimal_value ds = nat \<bar>x\<bar> \<and>
            (x \<noteq> 0 \<longrightarrow> hd ds \<noteq> CHR ''0'')) \<and>
      (sublist support_guidance (timeout_error_message x) \<longleftrightarrow> x = 300)) \<and>
   timeout_error_message 300 =
     ''Reached timeout of 300 seconds waiting for check result. Checkly may be experiencing problems. Please check https://is.checkly.online or reach out to support@checklyhq.com.'' \<and>
   timeout_error_message 120 = ''Reached timeout of 120 seconds waiting for check result.'' \<and>
   DEFAULT_CHECK_RUN_TIMEOUT_SECONDS = 300"
proof -
  have a: "find (\<lambda>t. timer_id t = h) (timers st) = Some t \<and> callback t = CheckTimeout i c \<and>
    \<bar>timeout st\<bar> \<le> MAX_SAFE_INTEGER \<longrightarrow>
      timeouts (fire h st) = AList.delete i (timeouts st) \<and>
      map_of (timeouts (fire h st)) i = None \<and>
      events (fire h st) =
        events st @ [CHECK_FAILED i c (JStr (timeout_error_message (timeout st))),
                     CHECK_FINISHED c]"
    by (simp add: fire_check_any AList.delete_conv')
  have b1: "timeout_error_message x =
     ''Reached timeout of '' @ number_to_string x @ '' seconds waiting for check result.'' @
     (if x = 300 then support_guidance else [])"
    by (simp add: timeout_error_message_def Let_def DEFAULT_CHECK_RUN_TIMEOUT_SECONDS_def)
  have b3: "sublist support_guidance (timeout_error_message x) \<longleftrightarrow> x = 300"
    using guidance_iff [of x] by (simp only: DEFAULT_CHECK_RUN_TIMEOUT_SECONDS_def)
  have b: "\<bar>x\<bar> \<le> MAX_SAFE_INTEGER \<longrightarrow>
      timeout_error_message x =
        ''Reached timeout of '' @ number_to_string x @ '' seconds waiting for check result.'' @
        (if x = 300 then support_guidance else []) \<and>
      (\<exists>ds. number_to_string x = (if x < 0 then CHR ''-'' # ds else ds) \<and> ds \<noteq> [] \<and>
            set ds \<subseteq> set ''0123456789'' \<and> decimal_value ds = nat \<bar>x\<bar> \<and>
            (x \<noteq> 0 \<longrightarrow> hd ds \<noteq> CHR ''0'')) \<and>
      (sublist support_guidance (timeout_error_message x) \<longleftrightarrow> x = 300)"
    by (intro impI conjI b1 b3 number_to_string_decimal)
  have c: "timeout_error_message 300 =
     ''Reached timeout of 300 seconds waiting for check result. Checkly may be experiencing problems. Please check https://is.checkly.online or reach out to support@checklyhq.com.''"
    by code_simp
  have d: "timeout_error_message 120 = ''Reached timeout of 120 seconds waiting for check result.''"
    by code_simp
  have e: "DEFAULT_CHECK_RUN_TIMEOUT_SECONDS = 300"
    by (simp only: DEFAULT_CHECK_RUN_TIMEOUT_SECONDS_def)
  show ?thesis by (intro conjI a b c d e)
qed

theorem timeout_callback_witness:
  "find (\<lambda>t. timer_id t = 1) (timers running) =
     Some \<lparr> timer_id = 1, delay_ms = 300000, callback = CheckTimeout ''b'' ''check-b'' \<rparr> \<and>
   callback \<lparr> timer_id = 1, delay_ms = 300000, callback = CheckTimeout ''b'' ''check-b'' \<rparr> =
     CheckTimeout ''b'' ''check-b'' \<and>
   \<bar>timeout running\<bar> \<le> MAX_SAFE_INTEGER \<and>
   timeouts (fire 1 running) = [(''a'', 0)] \<and>
   events (fire 1 running) =
     events running @
     [CHECK_FAILED ''b'' ''check-b''
        (JStr ''Reached timeout of 300 seconds waiting for check result. Checkly may be experiencing problems. Please check https://is.checkly.online or reach out to support@checklyhq.com.''),
      CHECK_FINISHED ''check-b''] \<and>
   number_to_string 300 = ''300'' \<and> decimal_value ''300'' = 300"
proof -
  let ?t = "\<lparr> timer_id = 1, delay_ms = 300000, callback = CheckTimeout ''b'' ''check-b'' \<rparr>"
  have h: "find (\<lambda>t. timer_id t = 1) (timers running) = Some ?t \<and>
      callback ?t = CheckTimeout ''b'' ''check-b'' \<and> \<bar>timeout running\<bar> \<le> MAX_SAFE_INTEGER"
    by (simp add: running_eq MAX_SAFE_INTEGER_def)
  have t: "timeout running = 300" "timeouts running = [(''a'', 0), (''b'', 1)]"
    by (simp_all add: running_eq)
  note th = timeout_callback [of 1 running ?t "''b''" "''check-b''" 300]
  from th h have e: "events (fire 1 running) =
     events running @ [CHECK_FAILED ''b'' ''check-b'' (JStr (timeout_error_message (timeout running))),
                       CHECK_FINISHED ''check-b''] \<and>
     timeouts (fire 1 running) = AList.delete ''b'' (timeouts running)"
    by blast
  from th have m: "timeout_error_message 300 =
     ''Reached timeout of 300 seconds waiting for check result. Checkly may be experiencing problems. Please check https://is.checkly.online or reach out to support@checklyhq.com.''"
    by blast
  have n: "number_to_string 300 = ''300''" "decimal_value ''300'' = 300" by code_simp+
  from e have "events (fire 1 running) =
     events running @
     [CHECK_FAILED ''b'' ''check-b''
        (JStr ''Reached timeout of 300 seconds waiting for check result. Checkly may be experiencing problems. Please check https://is.checkly.online or reach out to support@checklyhq.com.''),
      CHECK_FINISHED ''check-b'']"
    by (simp only: t m)
  moreover from e have "timeouts (fire 1 running) = [(''a'', 0)]" by (simp add: t)
  ultimately show ?thesis using h n by blast
qed

subsection \<open>A \<open>run-end\<close> message with assets\<close>

lemma get_prop_read: "v \<noteq> JNull \<Longrightarrow> v \<noteq> JUndefined \<Longrightarrow> get_prop v k = Inr (read_prop v k)"
  by (cases v) (simp_all add: read_prop_def)

lemma read_prop_obj:
  "read_prop (JObj r) k = (case map_of r k of None \<Rightarrow> JUndefined | Some v \<Rightarrow> v)"
  by (simp add: read_prop_def)

lemma read_prop_update:
  "k \<noteq> k' \<Longrightarrow> read_prop (JObj (AList.update k' v r)) k = read_prop (JObj r) k"
  by (simp add: read_prop_def AList.update_conv')

lemma links_part:
  "(case testResultId entry of
      None \<Rightarrow> (JUndefined, st)
    | Some r \<Rightarrow>
        if r = [] then (JStr r, st)
        else if \<not> truthy hasFailures then (hasFailures, st)
        else getShortLinks env r st) =
   (links_value env st entry hasFailures,
    st\<lparr> calls := calls st @
      (case links_wanted st entry hasFailures of
         None \<Rightarrow> []
       | Some (sid, r) \<Rightarrow> [GetResultShortLinks sid r]) \<rparr>)"
  by (simp add: links_value_def links_wanted_def getShortLinks_def read_prop_def Let_def
        split: option.splits sum.splits)

lemma fetch_asset_skip:
  "\<not> (truthy path \<and> wanted) \<Longrightarrow>
   fetch_asset fetch req field wanted region path result st = (Inr result, st)"
  by (auto simp: fetch_asset_def)

lemma fetch_asset_ok:
  "truthy path \<and> wanted \<Longrightarrow> fetch region path = Inr v \<Longrightarrow>
   fetch_asset fetch req field wanted region path (JObj r) st =
     (Inr (JObj (AList.update field v r)), st\<lparr> calls := calls st @ [req region path] \<rparr>)"
  by (simp add: fetch_asset_def Let_def)

lemma processCheckResult_unfold:
  assumes a: "map_of r ''assets'' = Some assets" "assets \<noteq> JNull" "assets \<noteq> JUndefined"
  shows "processCheckResult env (JObj r) st =
     (case fetch_asset (getLogs env) GetLogs ''logs''
             (verbose st \<or> truthy (read_prop (JObj r) ''hasFailures''))
             (read_prop assets ''region'') (read_prop assets ''logPath'') (JObj r) st of
        (Inl e, st1) \<Rightarrow> (Inl e, st1)
      | (Inr result1, st1) \<Rightarrow>
          fetch_asset (getCheckRunData env) GetCheckRunData ''checkRunData''
            (verbose st1 \<or> truthy (read_prop (JObj r) ''hasFailures''))
            (read_prop assets ''region'') (read_prop assets ''checkRunDataPath'') result1 st1)"
proof -
  note p = get_prop_read [OF a(2,3)]
  show ?thesis
    by (simp add: processCheckResult_def a(1) p read_prop_obj split: prod.splits sum.splits)
qed

lemma processCheckResult_assets:
  assumes a: "map_of r ''assets'' = Some assets" "assets \<noteq> JNull" "assets \<noteq> JUndefined"
    and l: "asset_wanted st (read_prop assets ''logPath'') (read_prop (JObj r) ''hasFailures'') \<longrightarrow>
            getLogs env (read_prop assets ''region'') (read_prop assets ''logPath'') = Inr logs"
    and d: "asset_wanted st (read_prop assets ''checkRunDataPath'') (read_prop (JObj r) ''hasFailures'') \<longrightarrow>
            getCheckRunData env (read_prop assets ''region'') (read_prop assets ''checkRunDataPath'')
              = Inr data"
  shows "processCheckResult env (JObj r) st =
     (let hasFailures = read_prop (JObj r) ''hasFailures'';
          region = read_prop assets ''region'';
          logPath = read_prop assets ''logPath'';
          dataPath = read_prop assets ''checkRunDataPath'';
          wl = asset_wanted st logPath hasFailures;
          wd = asset_wanted st dataPath hasFailures;
          r1 = (if wl then AList.update ''logs'' logs r else r);
          r2 = (if wd then AList.update ''checkRunData'' data r1 else r1)
      in (Inr (JObj r2),
          st\<lparr> calls := calls st @ (if wl then [GetLogs region logPath] else []) @
                         (if wd then [GetCheckRunData region dataPath] else []) \<rparr>))"
proof -
  let ?hf = "read_prop (JObj r) ''hasFailures''"
  let ?wl = "asset_wanted st (read_prop assets ''logPath'') ?hf"
  let ?wd = "asset_wanted st (read_prop assets ''checkRunDataPath'') ?hf"
  let ?r1 = "if ?wl then AList.update ''logs'' logs r else r"
  let ?st1 = "st\<lparr> calls := calls st @
      (if ?wl then [GetLogs (read_prop assets ''region'') (read_prop assets ''logPath'')] else []) \<rparr>"
  have 1: "fetch_asset (getLogs env) GetLogs ''logs'' (verbose st \<or> truthy ?hf)
             (read_prop assets ''region'') (read_prop assets ''logPath'') (JObj r) st =
           (Inr (JObj ?r1), ?st1)"
  proof (cases ?wl)
    case True
    then have w: "truthy (read_prop assets ''logPath'') \<and> (verbose st \<or> truthy ?hf)"
      by (simp add: asset_wanted_def)
    from True show ?thesis by (simp add: fetch_asset_ok [where fetch = "getLogs env", OF w l [rule_format, OF True]])
  next
    case False
    then have w: "\<not> (truthy (read_prop assets ''logPath'') \<and> (verbose st \<or> truthy ?hf))"
      by (simp add: asset_wanted_def)
    from False show ?thesis by (simp add: fetch_asset_skip [OF w])
  qed
  have 2: "fetch_asset (getCheckRunData env) GetCheckRunData ''checkRunData''
            (verbose ?st1 \<or> truthy ?hf)
            (read_prop assets ''region'') (read_prop assets ''checkRunDataPath'') (JObj ?r1) ?st1 =
           (Inr (JObj (if ?wd then AList.update ''checkRunData'' data ?r1 else ?r1)),
            ?st1\<lparr> calls := calls ?st1 @
              (if ?wd then [GetCheckRunData (read_prop assets ''region'')
                             (read_prop assets ''checkRunDataPath'')] else []) \<rparr>)"
  proof (cases ?wd)
    case True
    then have w: "truthy (read_prop assets ''checkRunDataPath'') \<and> (verbose st \<or> truthy ?hf)"
      by (simp add: asset_wanted_def)
    from True show ?thesis by (simp add: fetch_asset_ok [where fetch = "getCheckRunData env", OF w d [rule_format, OF True]])
  next
    case False
    then have w: "\<not> (truthy (read_prop assets ''checkRunDataPath'') \<and>
        (verbose st \<or> truthy ?hf))"
      by (simp add: asset_wanted_def)
    from False show ?thesis by (simp add: fetch_asset_skip [OF w])
  qed
  show ?thesis
    unfolding processCheckResult_unfold [OF a] 1
    by (simp only: prod.case sum.case 2 Let_def) simp
qed

lemma read_prop_enriched:
  "read_prop (JObj (if wd then AList.update ''checkRunData'' data
                      (if wl then AList.update ''logs'' logs r else r)
                    else (if wl then AList.update ''logs'' logs r else r))) ''hasFailures'' =
   read_prop (JObj r) ''hasFailures''"
  by (simp add: read_prop_update)

lemma links_wanted_calls [simp]: "links_wanted (st\<lparr> calls := cs \<rparr>) = links_wanted st"
  by (rule ext)+ (simp add: links_wanted_def split: option.splits)

lemma links_value_calls [simp]: "links_value env (st\<lparr> calls := cs \<rparr>) = links_value env st"
  by (rule ext)+ (simp add: links_value_def split: option.splits)

lemma links_wanted_disable [simp]: "links_wanted (disableTimeout i st) = links_wanted st"
  by (rule ext)+ (simp add: links_wanted_def split: option.splits)

lemma links_value_disable [simp]: "links_value env (disableTimeout i st) = links_value env st"
  by (rule ext)+ (simp add: links_value_def split: option.splits)

lemma asset_wanted_disable [simp]: "asset_wanted (disableTimeout i st) = asset_wanted st"
  by (rule ext)+ (simp add: asset_wanted_def)

lemma run_end_state:
  assumes live: "map_of (timeouts st) i = Some h"
    and known: "map_of (checks st) i = Some entry"
    and result: "get_prop message ''result'' = Inr (JObj r)"
    and a: "map_of r ''assets'' = Some assets" "assets \<noteq> JNull" "assets \<noteq> JUndefined"
    and l: "asset_wanted st (read_prop assets ''logPath'') (read_prop (JObj r) ''hasFailures'') \<longrightarrow>
            getLogs env (read_prop assets ''region'') (read_prop assets ''logPath'') = Inr logs"
    and d: "asset_wanted st (read_prop assets ''checkRunDataPath'') (read_prop (JObj r) ''hasFailures'') \<longrightarrow>
            getCheckRunData env (read_prop assets ''region'') (read_prop assets ''checkRunDataPath'')
              = Inr data"
  shows "processMessage env i ''run-end'' message st =
     (let hasFailures = read_prop (JObj r) ''hasFailures'';
          region = read_prop assets ''region'';
          logPath = read_prop assets ''logPath'';
          dataPath = read_prop assets ''checkRunDataPath'';
          wl = asset_wanted st logPath hasFailures;
          wd = asset_wanted st dataPath hasFailures;
          r1 = (if wl then AList.update ''logs'' logs r else r);
          r2 = (if wd then AList.update ''checkRunData'' data r1 else r1)
      in emit (CHECK_FINISHED (check entry))
           (emit (CHECK_SUCCESSFUL i (check entry) (JObj r2)
                    (links_value env st entry hasFailures))
              ((disableTimeout i st)
                 \<lparr> calls := calls st @ (if wl then [GetLogs region logPath] else []) @
                     (if wd then [GetCheckRunData region dataPath] else []) @
                     (case links_wanted st entry hasFailures of
                        None \<Rightarrow> []
                      | Some (sid, rid) \<Rightarrow> [GetResultShortLinks sid rid]) \<rparr>)))"
proof -
  define hf where "hf = read_prop (JObj r) ''hasFailures''"
  define wl where "wl = asset_wanted st (read_prop assets ''logPath'') hf"
  define wd where "wd = asset_wanted st (read_prop assets ''checkRunDataPath'') hf"
  define r2 where "r2 = (if wd then AList.update ''checkRunData'' data
                      (if wl then AList.update ''logs'' logs r else r)
                    else (if wl then AList.update ''logs'' logs r else r))"
  define cs where "cs = calls st @
      (if wl then [GetLogs (read_prop assets ''region'') (read_prop assets ''logPath'')] else []) @
      (if wd then [GetCheckRunData (read_prop assets ''region'')
                     (read_prop assets ''checkRunDataPath'')] else [])"
  let ?st1 = "disableTimeout i st"
  let ?st2 = "?st1\<lparr> calls := cs \<rparr>"
  have b: "processMessage_begin i ''run-end'' message st = (Some (i, entry, JObj r), ?st1)"
    using live known result by (simp add: processMessage_begin_def)
  have l': "asset_wanted ?st1 (read_prop assets ''logPath'') (read_prop (JObj r) ''hasFailures'') \<longrightarrow>
            getLogs env (read_prop assets ''region'') (read_prop assets ''logPath'') = Inr logs"
    using l by simp
  have d': "asset_wanted ?st1 (read_prop assets ''checkRunDataPath'') (read_prop (JObj r) ''hasFailures'') \<longrightarrow>
            getCheckRunData env (read_prop assets ''region'') (read_prop assets ''checkRunDataPath'')
              = Inr data"
    using d by simp
  have pc: "processCheckResult env (JObj r) ?st1 = (Inr (JObj r2), ?st2)"
    using processCheckResult_assets [OF a l' d']
    by (simp add: Let_def r2_def cs_def wl_def wd_def hf_def)
  have g: "get_prop (JObj r2) ''hasFailures'' = Inr hf"
  proof -
    have "get_prop (JObj r2) ''hasFailures'' = Inr (read_prop (JObj r2) ''hasFailures'')"
      by (rule get_prop_read) simp_all
    then show ?thesis unfolding r2_def hf_def by (simp only: read_prop_enriched)
  qed
  have lp: "(case testResultId entry of
      None \<Rightarrow> (JUndefined, ?st2)
    | Some r \<Rightarrow>
        if r = [] then (JStr r, ?st2)
        else if \<not> truthy hf then (hf, ?st2)
        else getShortLinks env r ?st2) =
     (links_value env st entry hf,
      ?st1\<lparr> calls := cs @ (case links_wanted st entry hf of
                              None \<Rightarrow> []
                            | Some (sid, r) \<Rightarrow> [GetResultShortLinks sid r]) \<rparr>)"
    unfolding links_part by simp
  have "processMessage env i ''run-end'' message st =
      emit (CHECK_FINISHED (check entry))
        (emit (CHECK_SUCCESSFUL i (check entry) (JObj r2) (links_value env st entry hf))
           (?st1\<lparr> calls := cs @ (case links_wanted st entry hf of
                              None \<Rightarrow> []
                            | Some (sid, r) \<Rightarrow> [GetResultShortLinks sid r]) \<rparr>))"
    by (simp add: processMessage_def b processMessage_resume_def pc g lp del: get_prop.simps)
  then show ?thesis
    by (simp add: Let_def r2_def cs_def wl_def wd_def hf_def)
qed

text \<open>
  C2, as amended. For a \<open>run-end\<close> message to a check with a timeout entry and a check
  record, whose result is an object with an \<open>assets\<close> value other than \<open>null\<close>, and
  when the asset fetches that are made succeed: the timeout is disabled; the logs are
  fetched exactly when \<open>logPath\<close> is truthy and (verbose mode is on or the result reports
  failures), the check-run data likewise for \<open>checkRunDataPath\<close>, and each is attached
  to the result; short links are requested exactly when the check has a non-empty
  \<open>testResultId\<close>, the result reports failures and the run has a test session id, and a
  failure of that request is swallowed; then the succeeded event is emitted with the
  enriched result and the links, followed by the finished event.
\<close>

theorem run_end_processing:
  assumes live: "map_of (timeouts st) i = Some h"
    and known: "map_of (checks st) i = Some entry"
    and result: "get_prop message ''result'' = Inr (JObj r)"
    and a: "map_of r ''assets'' = Some assets" "assets \<noteq> JNull" "assets \<noteq> JUndefined"
    and l: "asset_wanted st (read_prop assets ''logPath'') (read_prop (JObj r) ''hasFailures'') \<longrightarrow>
            getLogs env (read_prop assets ''region'') (read_prop assets ''logPath'') = Inr logs"
    and d: "asset_wanted st (read_prop assets ''checkRunDataPath'') (read_prop (JObj r) ''hasFailures'') \<longrightarrow>
            getCheckRunData env (read_prop assets ''region'') (read_prop assets ''checkRunDataPath'')
              = Inr data"
  shows
    "let hasFailures = read_prop (JObj r) ''hasFailures'';
         region = read_prop assets ''region'';
         logPath = read_prop assets ''logPath'';
         dataPath = read_prop assets ''checkRunDataPath'';
         wl = asset_wanted st logPath hasFailures;
         wd = asset_wanted st dataPath hasFailures;
         r1 = (if wl then AList.update ''logs'' logs r else r);
         r2 = (if wd then AList.update ''checkRunData'' data r1 else r1);
         st' = processMessage env i ''run-end'' message st
     in timeouts st' = AList.delete i (timeouts st) \<and>
        timers st' = filter (\<lambda>t. timer_id t \<noteq> h) (timers st) \<and>
        calls st' =
          calls st @ (if wl then [GetLogs region logPath] else []) @
          (if wd then [GetCheckRunData region dataPath] else []) @
          (case links_wanted st entry hasFailures of
             None \<Rightarrow> []
           | Some (sid, rid) \<Rightarrow> [GetResultShortLinks sid rid]) \<and>
        events st' =
          events st @ [CHECK_SUCCESSFUL i (check entry) (JObj r2)
                         (links_value env st entry hasFailures),
                       CHECK_FINISHED (check entry)] \<and>
        rejections st' = rejections st"
  unfolding Let_def run_end_state [OF live known result a l d, unfolded Let_def]
  by (simp add: timers_disableTimeout live)

theorem run_end_processing_witness:
  "map_of (timeouts running) ''a'' = Some 0 \<and>
   map_of (checks running) ''a'' = Some \<lparr> check = ''check-a'', testResultId = Some ''result-a'' \<rparr> \<and>
   get_prop failed_result ''result'' =
     Inr (JObj [(''hasFailures'', JBool True),
                (''assets'', JObj [(''region'', JStr ''eu-west-1''), (''logPath'', JStr ''logs/a'')])]) \<and>
   getLogs example_env (JStr ''eu-west-1'') (JStr ''logs/a'') = Inr (JStr ''log'') \<and>
   timeouts (processMessage example_env ''a'' ''run-end'' failed_result running) = [(''b'', 1)] \<and>
   calls (processMessage example_env ''a'' ''run-end'' failed_result running) =
     [GetLogs (JStr ''eu-west-1'') (JStr ''logs/a''), GetResultShortLinks ''session'' ''result-a''] \<and>
   events (processMessage example_env ''a'' ''run-end'' failed_result running) =
     events running @
     [CHECK_SUCCESSFUL ''a'' ''check-a''
        (JObj [(''hasFailures'', JBool True),
               (''assets'', JObj [(''region'', JStr ''eu-west-1''), (''logPath'', JStr ''logs/a'')]),
               (''logs'', JStr ''log'')])
        (JStr ''links''),
      CHECK_FINISHED ''check-a'']"
proof -
  let ?assets = "JObj [(''region'', JStr ''eu-west-1''), (''logPath'', JStr ''logs/a'')]"
  let ?r = "[(''hasFailures'', JBool True), (''assets'', ?assets)]"
  let ?entry = "\<lparr> check = ''check-a'', testResultId = Some ''result-a'' \<rparr>"
  have 1: "map_of (timeouts running) ''a'' = Some 0" by (simp add: running_eq)
  have 2: "map_of (checks running) ''a'' = Some ?entry" by (simp add: running_eq)
  have 3: "get_prop failed_result ''result'' = Inr (JObj ?r)" by (simp add: failed_result_def)
  have 4: "map_of ?r ''assets'' = Some ?assets" by simp
  have 5: "?assets \<noteq> JNull" "?assets \<noteq> JUndefined" by simp_all
  have g: "getLogs example_env (JStr ''eu-west-1'') (JStr ''logs/a'') = Inr (JStr ''log'')"
    by (simp add: example_env_def)
  have rp: "read_prop ?assets ''logPath'' = JStr ''logs/a''"
    "read_prop ?assets ''region'' = JStr ''eu-west-1''"
    "read_prop ?assets ''checkRunDataPath'' = JUndefined"
    "read_prop (JObj ?r) ''hasFailures'' = JBool True"
    by (simp_all add: read_prop_def)
  have 6: "asset_wanted running (read_prop ?assets ''logPath'') (read_prop (JObj ?r) ''hasFailures'') \<longrightarrow>
      getLogs example_env (read_prop ?assets ''region'') (read_prop ?assets ''logPath'') = Inr (JStr ''log'')"
    using g by (simp add: rp)
  have 7: "asset_wanted running (read_prop ?assets ''checkRunDataPath'') (read_prop (JObj ?r) ''hasFailures'') \<longrightarrow>
      getCheckRunData example_env (read_prop ?assets ''region'') (read_prop ?assets ''checkRunDataPath'')
        = Inr JNull"
    by (simp add: rp asset_wanted_def)
  have w: "asset_wanted running (JStr ''logs/a'') (JBool True)"
    "\<not> asset_wanted running JUndefined (JBool True)"
    by (simp_all add: asset_wanted_def)
  have lw: "links_wanted running ?entry (JBool True) = Some (''session'', ''result-a'')"
    by (simp add: links_wanted_def running_eq)
  have lv: "links_value example_env running ?entry (JBool True) = JStr ''links''"
    by (simp add: links_value_def lw example_env_def read_prop_def)
  have c: "calls running = []" "timeouts running = [(''a'', 0), (''b'', 1)]"
    by (simp_all add: running_eq)
  from run_end_processing [OF 1 2 3 4 5 6 7]
  have "timeouts (processMessage example_env ''a'' ''run-end'' failed_result running) = [(''b'', 1)] \<and>
   calls (processMessage example_env ''a'' ''run-end'' failed_result running) =
     [GetLogs (JStr ''eu-west-1'') (JStr ''logs/a''), GetResultShortLinks ''session'' ''result-a''] \<and>
   events (processMessage example_env ''a'' ''run-end'' failed_result running) =
     events running @
     [CHECK_SUCCESSFUL ''a'' ''check-a''
        (JObj [(''hasFailures'', JBool True),
               (''assets'', JObj [(''region'', JStr ''eu-west-1''), (''logPath'', JStr ''logs/a'')]),
               (''logs'', JStr ''log'')])
        (JStr ''links''),
      CHECK_FINISHED ''check-a'']"
    by (simp add: Let_def rp w lw lv c)
  with 1 2 3 g show ?thesis by blast
qed

text \<open>
  C2 as it is stated fails in three places. A result without \<open>assets\<close> makes the call
  throw after the timeout was disabled, with no event. When the log store fails, the
  failure is not swallowed as that of the short links is: the call is rejected with it,
  again after the timeout was disabled and with no event. And when the scheduler gave no
  test session id, no short links are requested, though the check has a \<open>testResultId\<close>
  and the result reports failures.
\<close>

theorem run_end_processing_counterexample:
  "events (processMessage example_env ''a'' ''run-end'' bare_result running) = events running \<and>
   rejections (processMessage example_env ''a'' ''run-end'' bare_result running) = [TypeError] \<and>
   timeouts (processMessage example_env ''a'' ''run-end'' bare_result running) = [(''b'', 1)] \<and>
   exec failing_env example_start [RunConnect, RunSchedule] = running \<and>
   events (processMessage failing_env ''a'' ''run-end'' failed_result running) = events running \<and>
   rejections (processMessage failing_env ''a'' ''run-end'' failed_result running) =
     [Rejected ''unavailable''] \<and>
   calls (processMessage failing_env ''a'' ''run-end'' failed_result running) =
     [GetLogs (JStr ''eu-west-1'') (JStr ''logs/a'')] \<and>
   timeouts (processMessage failing_env ''a'' ''run-end'' failed_result running) = [(''b'', 1)] \<and>
   map_of (checks (exec sessionless_env example_start [RunConnect, RunSchedule])) ''a'' =
     Some \<lparr> check = ''check-a'', testResultId = Some ''result-a'' \<rparr> \<and>
   calls (processMessage sessionless_env ''a'' ''run-end'' failed_result
            (exec sessionless_env example_start [RunConnect, RunSchedule])) =
     [GetLogs (JStr ''eu-west-1'') (JStr ''logs/a'')] \<and>
   events (processMessage sessionless_env ''a'' ''run-end'' failed_result
            (exec sessionless_env example_start [RunConnect, RunSchedule])) =
     [RUN_STARTED
        [\<lparr> check = ''check-a'', testResultId = Some ''result-a'', checkRunId = ''a'' \<rparr>,
         \<lparr> check = ''check-b'', testResultId = None, checkRunId = ''b'' \<rparr>] None,
      CHECK_SUCCESSFUL ''a'' ''check-a''
        (JObj [(''hasFailures'', JBool True),
               (''assets'', JObj [(''region'', JStr ''eu-west-1''), (''logPath'', JStr ''logs/a'')]),
               (''logs'', JStr ''log'')])
        JUndefined,
      CHECK_FINISHED ''check-a'']"
  by code_simp

subsection \<open>What the invariant gives in every state of a run\<close>

lemma unarmed_timers_ok: "unarmed st \<Longrightarrow> timers_ok st"
  by (simp add: unarmed_def timers_ok_iff)

lemma run_inv_timers_ok: "run_inv st \<Longrightarrow> timers_ok st"
  using run_inv_cases [of st] by (auto simp: unarmed_timers_ok armed_def)

lemma run_inv_unarmed_events:
  "run_inv st \<Longrightarrow> phase st \<noteq> Running \<Longrightarrow> phase st \<noteq> TerminalSuccess \<Longrightarrow>
   unarmed st \<and> (events st = [] \<or> (\<exists>x. events st = [ERROR x]))"
  by (cases "phase st") (auto simp: run_inv_def)

lemma unarmed_terminal_ok:
  "unarmed st \<Longrightarrow> events st = [] \<or> (\<exists>x. events st = [ERROR x]) \<Longrightarrow> terminal_ok st"
  by (auto simp: unarmed_def terminal_ok_iff)

lemma run_inv_terminal_ok: "run_inv st \<Longrightarrow> terminal_ok st"
proof -
  assume i: "run_inv st"
  from run_inv_cases [OF i] show ?thesis
  proof
    assume "unarmed st \<and> phase st \<noteq> Running \<and> phase st \<noteq> TerminalSuccess"
    with run_inv_unarmed_events [OF i] show ?thesis by (simp add: unarmed_terminal_ok)
  next
    assume "armed st \<and> (phase st = Running \<or> phase st = TerminalSuccess)"
    then show ?thesis by (simp add: armed_def)
  qed
qed

lemma terminal_le:
  assumes "terminal_ok st"
  shows "length (terminal_ids (events st)) \<le> length (checks st)"
proof -
  from assms have d: "distinct (terminal_ids (events st))"
    and s: "set (terminal_ids (events st)) \<subseteq> set (map fst (checks st))"
    by (simp_all add: terminal_ok_iff)
  from d have "length (terminal_ids (events st)) = card (set (terminal_ids (events st)))"
    by (simp add: distinct_card)
  also from s have "\<dots> \<le> card (set (map fst (checks st)))" by (intro card_mono) simp_all
  also have "\<dots> \<le> length (map fst (checks st))" by (rule card_length)
  finally show ?thesis by simp
qed


lemma finished_le:
  "run_inv st \<Longrightarrow> length (filter is_finished (events st)) \<le> length (checks st)"
  using terminal_le [OF run_inv_terminal_ok, of st] paired_count [of "events st"]
    run_inv_terminal_ok [of st]
  by (simp add: terminal_ok_iff)

subsection \<open>The handler of \<open>run\<close>\<close>

lemma run_catch_clears:
  assumes ok: "timers_ok st"
  shows "timeouts (run_catch err st) = []" and "timers (run_catch err st) = []"
    and "schedulingDelayExceededTimeout (run_catch err st) = None"
    and "events (run_catch err st) = events st @ [ERROR err]"
    and "phase (run_catch err st) = TerminalError"
    and "socketClient (run_catch err st) =
           (if socketClient st = SocketOpen then SocketEnded else socketClient st)"
  using disableAllTimeouts_clears [OF ok]
  by (simp_all add: run_catch_def run_finally_def Let_def)

subsection \<open>Arming a part of the batch\<close>

lemma keys_foldl_arm_check:
  "fst ` set (timeouts (foldl arm_check st cs)) = fst ` set (timeouts st) \<union> fst ` set cs"
proof (induction cs arbitrary: st)
  case Nil
  show ?case by simp
next
  case (Cons e cs)
  have "fst ` set (timeouts (arm_check st e)) = insert (fst e) (fst ` set (timeouts st))"
    by (simp add: arm_check_eq AList.dom_update)
  with Cons.IH [of "arm_check st e"] show ?case by auto
qed

lemma checks_foldl_arm_check: "checks (foldl arm_check st cs) = checks st"
  by (subst foldl_arm_check_frame) simp

text \<open>
  C9. In every state of a run, every key of \<open>timeouts\<close> is a key of \<open>checks\<close>; arming
  any part of the batch keeps it so; and therefore \<open>disableAllTimeouts\<close>, which walks the
  keys of \<open>checks\<close>, leaves no entry, no pending timer and no scheduling-delay handle.
  Without the invariant it would not: with the checks of the example run taken away,
  both entries stay.
\<close>

theorem timeouts_within_checks:
  "fst ` set (timeouts (exec env (constructor account t v) as))
     \<subseteq> fst ` set (checks (exec env (constructor account t v) as)) \<and>
   timeouts (disableAllTimeouts (exec env (constructor account t v) as)) = [] \<and>
   timers (disableAllTimeouts (exec env (constructor account t v) as)) = [] \<and>
   schedulingDelayExceededTimeout (disableAllTimeouts (exec env (constructor account t v) as))
     = None \<and>
   (fst ` set (timeouts s) \<subseteq> fst ` set (checks s) \<longrightarrow>
      fst ` set (timeouts (foldl arm_check s (take n (checks s))))
        \<subseteq> fst ` set (checks (foldl arm_check s (take n (checks s))))) \<and>
   timeouts (disableAllTimeouts (running\<lparr> checks := [] \<rparr>)) = [(''a'', 0), (''b'', 1)]"
proof -
  let ?st = "exec env (constructor account t v) as"
  have ok: "timers_ok ?st" by (rule run_inv_timers_ok [OF run_inv_reachable])
  then have 1: "fst ` set (timeouts ?st) \<subseteq> fst ` set (checks ?st)"
    by (simp add: timers_ok_iff)
  note 2 = disableAllTimeouts_clears [OF ok]
  have 3: "fst ` set (timeouts s) \<subseteq> fst ` set (checks s) \<longrightarrow>
      fst ` set (timeouts (foldl arm_check s (take n (checks s))))
        \<subseteq> fst ` set (checks (foldl arm_check s (take n (checks s))))"
    using set_take_subset [of n "checks s"]
    by (auto simp: keys_foldl_arm_check checks_foldl_arm_check)
  have 4: "timeouts (disableAllTimeouts (running\<lparr> checks := [] \<rparr>)) = [(''a'', 0), (''b'', 1)]"
    by code_simp
  show ?thesis by (intro conjI 1 2 3 4)
qed

theorem timeouts_within_checks_witness:
  "map fst (timeouts running) = [''a'', ''b''] \<and> map fst (checks running) = [''a'', ''b''] \<and>
   map timer_id (timers running) = [0, 1, 2] \<and>
   timeouts (disableAllTimeouts running) = [] \<and> timers (disableAllTimeouts running) = [] \<and>
   schedulingDelayExceededTimeout (disableAllTimeouts running) = None \<and>
   map fst (timeouts (foldl arm_check (running\<lparr> timeouts := [] \<rparr>) (take 1 (checks running))))
     = [''a'']"
proof -
  have a: "map fst (timeouts running) = [''a'', ''b'']" "map fst (checks running) = [''a'', ''b'']"
    "map timer_id (timers running) = [0, 1, 2]"
    by (simp_all add: running_eq)
  have b: "map fst (timeouts (foldl arm_check (running\<lparr> timeouts := [] \<rparr>) (take 1 (checks running))))
     = [''a'']"
    by code_simp
  note t = timeouts_within_checks [of example_env "''account''" 300 False
      "[RunConnect, RunSchedule]" running 0, unfolded running_reachable [symmetric]]
  from t
  have "timeouts (disableAllTimeouts running) = [] \<and> timers (disableAllTimeouts running) = [] \<and>
   schedulingDelayExceededTimeout (disableAllTimeouts running) = None"
    by blast
  with a b show ?thesis by blast
qed

text \<open>
  C4. An exception raised in \<open>run\<close> before it waits for completion ends the run in its
  error state. Whatever the state of the run the handler is entered from, it leaves no
  timeout entry, no pending timer and no scheduling-delay handle, emits the error event
  with the exception, and closes the connection if it is open. A failed connect, a failed
  subscribe and a failed \<open>scheduleChecks\<close> each lead there, with the error event the only
  event of the run; in the first the connection was never opened, in the others it is
  closed. A run in its error state has exactly that one event, so no run-finished; and a
  run that has finished has closed the connection as well.
\<close>

theorem run_error_path:
  "(let st = exec env (constructor account t v) as; st' = run_catch err st
    in timeouts st' = [] \<and> timers st' = [] \<and> schedulingDelayExceededTimeout st' = None \<and>
       events st' = events st @ [ERROR err] \<and> phase st' = TerminalError \<and>
       socketClient st' = (if socketClient st = SocketOpen then SocketEnded else socketClient st)) \<and>
   (let st = exec env (constructor account t v) as; st' = step env st RunConnect
    in (phase st = Idle \<and> connect env = Some err \<longrightarrow>
          phase st' = TerminalError \<and> events st' = [ERROR err] \<and> socketClient st' = NoSocket \<and>
          timeouts st' = [] \<and> timers st' = []) \<and>
       (phase st = Idle \<and> connect env = None \<and>
        subscribe env (topic_pattern (accountId st) (uuid_v4 env)) = Some err \<longrightarrow>
          phase st' = TerminalError \<and> events st' = [ERROR err] \<and> socketClient st' = SocketEnded \<and>
          timeouts st' = [] \<and> timers st' = [])) \<and>
   (let st = exec env (constructor account t v) as; st' = step env st RunSchedule
    in phase st = Listening \<and> scheduleChecks env (checkRunSuiteId st) = Inl err \<longrightarrow>
          phase st' = TerminalError \<and> events st' = [ERROR err] \<and> socketClient st' = SocketEnded \<and>
          timeouts st' = [] \<and> timers st' = []) \<and>
   (let st = exec env (constructor account t v) as
    in (phase st = TerminalError \<longrightarrow>
          (\<exists>x. events st = [ERROR x]) \<and> timeouts st = [] \<and> timers st = [] \<and>
          schedulingDelayExceededTimeout st = None \<and> socketClient st \<noteq> SocketOpen) \<and>
       (phase st = TerminalSuccess \<longrightarrow> socketClient st = SocketEnded))"
proof -
  define st where "st = exec env (constructor account t v) as"
  have i: "run_inv st" unfolding st_def by (rule run_inv_reachable)
  note c = run_catch_clears [OF run_inv_timers_ok [OF i]]
  have 1: "let st' = run_catch err st
    in timeouts st' = [] \<and> timers st' = [] \<and> schedulingDelayExceededTimeout st' = None \<and>
       events st' = events st @ [ERROR err] \<and> phase st' = TerminalError \<and>
       socketClient st' = (if socketClient st = SocketOpen then SocketEnded else socketClient st)"
    unfolding Let_def by (intro conjI c)
  have idle: "phase st = Idle \<Longrightarrow> events st = [] \<and> socketClient st = NoSocket \<and> timers_ok st"
    using i run_inv_timers_ok [OF i] by (simp add: run_inv_def)
  have listening: "phase st = Listening \<Longrightarrow>
      events st = [] \<and> socketClient st = SocketOpen \<and> timers_ok st"
    using i run_inv_timers_ok [OF i] by (simp add: run_inv_def)
  have 2: "phase st = Idle \<and> connect env = Some err \<longrightarrow>
          phase (step env st RunConnect) = TerminalError \<and>
          events (step env st RunConnect) = [ERROR err] \<and>
          socketClient (step env st RunConnect) = NoSocket \<and>
          timeouts (step env st RunConnect) = [] \<and> timers (step env st RunConnect) = []"
  proof (intro impI)
    assume a: "phase st = Idle \<and> connect env = Some err"
    let ?s = "st\<lparr> socketClient := NoSocket \<rparr>"
    from idle a have "timers_ok ?s" by (simp add: timers_ok_cong [of ?s st])
    from run_catch_clears [OF this, of err] idle a show
      "phase (step env st RunConnect) = TerminalError \<and>
          events (step env st RunConnect) = [ERROR err] \<and>
          socketClient (step env st RunConnect) = NoSocket \<and>
          timeouts (step env st RunConnect) = [] \<and> timers (step env st RunConnect) = []"
      by (simp add: run_connect_def)
  qed
  have 3: "phase st = Idle \<and> connect env = None \<and>
        subscribe env (topic_pattern (accountId st) (uuid_v4 env)) = Some err \<longrightarrow>
          phase (step env st RunConnect) = TerminalError \<and>
          events (step env st RunConnect) = [ERROR err] \<and>
          socketClient (step env st RunConnect) = SocketEnded \<and>
          timeouts (step env st RunConnect) = [] \<and> timers (step env st RunConnect) = []"
  proof (intro impI)
    assume a: "phase st = Idle \<and> connect env = None \<and>
        subscribe env (topic_pattern (accountId st) (uuid_v4 env)) = Some err"
    let ?s = "st\<lparr> socketClient := SocketOpen, checkRunSuiteId := uuid_v4 env \<rparr>"
    from idle a have "timers_ok ?s" by (simp add: timers_ok_cong [of ?s st])
    from run_catch_clears [OF this, of err] idle a show
      "phase (step env st RunConnect) = TerminalError \<and>
          events (step env st RunConnect) = [ERROR err] \<and>
          socketClient (step env st RunConnect) = SocketEnded \<and>
          timeouts (step env st RunConnect) = [] \<and> timers (step env st RunConnect) = []"
      by (simp add: run_connect_def Let_def)
  qed
  have 4: "phase st = Listening \<and> scheduleChecks env (checkRunSuiteId st) = Inl err \<longrightarrow>
          phase (step env st RunSchedule) = TerminalError \<and>
          events (step env st RunSchedule) = [ERROR err] \<and>
          socketClient (step env st RunSchedule) = SocketEnded \<and>
          timeouts (step env st RunSchedule) = [] \<and> timers (step env st RunSchedule) = []"
  proof (intro impI)
    assume a: "phase st = Listening \<and> scheduleChecks env (checkRunSuiteId st) = Inl err"
    with listening have "timers_ok st" by simp
    from run_catch_clears [OF this, of err] listening a show
      "phase (step env st RunSchedule) = TerminalError \<and>
          events (step env st RunSchedule) = [ERROR err] \<and>
          socketClient (step env st RunSchedule) = SocketEnded \<and>
          timeouts (step env st RunSchedule) = [] \<and> timers (step env st RunSchedule) = []"
      by (simp add: run_schedule_def)
  qed
  have 5: "phase st = TerminalError \<longrightarrow>
          (\<exists>x. events st = [ERROR x]) \<and> timeouts st = [] \<and> timers st = [] \<and>
          schedulingDelayExceededTimeout st = None \<and> socketClient st \<noteq> SocketOpen"
    using i by (auto simp: run_inv_def unarmed_def)
  have 6: "phase st = TerminalSuccess \<longrightarrow> socketClient st = SocketEnded"
    using i by (auto simp: run_inv_def)
  note r1 = 1 [unfolded Let_def]
  show ?thesis
    unfolding st_def [symmetric] Let_def
    by (rule conjI [OF r1 conjI [OF conjI [OF 2 3] conjI [OF 4 conjI [OF 5 6]]]])
qed

theorem run_error_path_witness:
  "phase (exec unschedulable_env example_start [RunConnect]) = Listening \<and>
   scheduleChecks unschedulable_env
     (checkRunSuiteId (exec unschedulable_env example_start [RunConnect]))
     = Inl (Rejected ''unschedulable'') \<and>
   phase (exec unschedulable_env example_start [RunConnect, RunSchedule]) = TerminalError \<and>
   events (exec unschedulable_env example_start [RunConnect, RunSchedule])
     = [ERROR (Rejected ''unschedulable'')] \<and>
   socketClient (exec unschedulable_env example_start [RunConnect, RunSchedule]) = SocketEnded \<and>
   timeouts (exec unschedulable_env example_start [RunConnect, RunSchedule]) = [] \<and>
   timers (exec unschedulable_env example_start [RunConnect, RunSchedule]) = [] \<and>
   events (run_catch TypeError running) = events running @ [ERROR TypeError] \<and>
   timeouts (run_catch TypeError running) = [] \<and> timers (run_catch TypeError running) = [] \<and>
   map fst (timeouts running) = [''a'', ''b''] \<and> socketClient running = SocketOpen \<and> socketClient (run_catch TypeError running) = SocketEnded"
proof -
  have a: "phase (exec unschedulable_env example_start [RunConnect]) = Listening"
    "scheduleChecks unschedulable_env
       (checkRunSuiteId (exec unschedulable_env example_start [RunConnect]))
     = Inl (Rejected ''unschedulable'')"
    by code_simp+
  have b: "socketClient running = SocketOpen" "map fst (timeouts running) = [''a'', ''b'']"
    by (simp_all add: running_eq)
  have e: "exec unschedulable_env example_start [RunConnect, RunSchedule]
    = step unschedulable_env (exec unschedulable_env example_start [RunConnect]) RunSchedule"
    by (simp add: exec_def)
  have s0: "constructor ''account'' 300 False = example_start"
    by (simp add: example_start_def)
  note t = run_error_path [of unschedulable_env "''account''" 300 False "[RunConnect]"
      "Rejected ''unschedulable''", unfolded Let_def s0]
  from t a
  have c: "phase (exec unschedulable_env example_start [RunConnect, RunSchedule]) = TerminalError \<and>
   events (exec unschedulable_env example_start [RunConnect, RunSchedule])
     = [ERROR (Rejected ''unschedulable'')] \<and>
   socketClient (exec unschedulable_env example_start [RunConnect, RunSchedule]) = SocketEnded \<and>
   timeouts (exec unschedulable_env example_start [RunConnect, RunSchedule]) = [] \<and>
   timers (exec unschedulable_env example_start [RunConnect, RunSchedule]) = []"
    unfolding e by blast
  note u = run_error_path [of example_env "''account''" 300 False "[RunConnect, RunSchedule]"
      TypeError, unfolded Let_def running_reachable [symmetric]]
  from u b
  have d: "events (run_catch TypeError running) = events running @ [ERROR TypeError] \<and>
   timeouts (run_catch TypeError running) = [] \<and> timers (run_catch TypeError running) = [] \<and>
   socketClient (run_catch TypeError running) = SocketEnded"
    by simp
  from a b c d show ?thesis by blast
qed

subsection \<open>The completion tracker\<close>

lemma on_CHECK_FINISHED_counts:
  assumes l: "finished_listener s = Some \<lparr> count = k, numChecks = n \<rparr>"
    and p: "allFinished s = Some (if n \<le> k then Resolved else Pending)"
    and k: "0 < n"
  shows "finished_listener ((on_CHECK_FINISHED ^^ m) s) = Some \<lparr> count = k + m, numChecks = n \<rparr> \<and>
     allFinished ((on_CHECK_FINISHED ^^ m) s)
       = Some (if n \<le> k + m then Resolved else Pending) \<and>
     resolve_calls ((on_CHECK_FINISHED ^^ m) s)
       = resolve_calls s + (if k < n \<and> n \<le> k + m then 1 else 0)"
proof (induction m)
  case 0
  from l p show ?case by simp
next
  case (Suc m)
  define s' where "s' = (on_CHECK_FINISHED ^^ m) s"
  from Suc have a: "finished_listener s' = Some \<lparr> count = k + m, numChecks = n \<rparr>"
    and b: "allFinished s' = Some (if n \<le> k + m then Resolved else Pending)"
    and c: "resolve_calls s' = resolve_calls s + (if k < n \<and> n \<le> k + m then 1 else 0)"
    by (simp_all add: s'_def)
  have e: "(on_CHECK_FINISHED ^^ Suc m) s = on_CHECK_FINISHED s'" by (simp add: s'_def)
  show ?case
    unfolding e using a b c k
    by (auto simp: on_CHECK_FINISHED_def Let_def resolve_def)
qed

lemma tracker_run:
  assumes i: "run_inv st" and p: "phase st = Running \<or> phase st = TerminalSuccess"
  shows "length (filter is_finished (events st)) \<le> length (checks st)"
    and "finished_listener st =
           (if checks st = [] then None
            else Some \<lparr> count = length (filter is_finished (events st)),
                        numChecks = length (checks st) \<rparr>)"
    and "allFinished st =
           Some (if length (filter is_finished (events st)) = length (checks st)
                 then Resolved else Pending)"
    and "resolve_calls st =
           (if checks st \<noteq> [] \<and> length (filter is_finished (events st)) = length (checks st)
            then 1 else 0)"
    and "phase st = TerminalSuccess \<longrightarrow>
           length (filter is_finished (events st)) = length (checks st)"
proof -
  from i p have t: "tracker_ok st" by (auto simp: run_inv_def armed_def)
  note le = finished_le [OF i]
  show "length (filter is_finished (events st)) \<le> length (checks st)" by (rule le)
  from t le show "finished_listener st =
           (if checks st = [] then None
            else Some \<lparr> count = length (filter is_finished (events st)),
                        numChecks = length (checks st) \<rparr>)"
    by (auto simp: tracker_ok_def Let_def split: if_splits)
  from t le show "allFinished st =
           Some (if length (filter is_finished (events st)) = length (checks st)
                 then Resolved else Pending)"
    by (auto simp: tracker_ok_def Let_def split: if_splits)
  from t le show "resolve_calls st =
           (if checks st \<noteq> [] \<and> length (filter is_finished (events st)) = length (checks st)
            then 1 else 0)"
    by (auto simp: tracker_ok_def Let_def split: if_splits)
  from i le show "phase st = TerminalSuccess \<longrightarrow>
           length (filter is_finished (events st)) = length (checks st)"
    by (auto simp: run_inv_def)
qed

text \<open>
  C5. The tracker taken alone: created in a state with \<open>n\<close> checks and no listener yet,
  and after \<open>m\<close> finished events, its promise is resolved exactly when \<open>n \<le> m\<close>, and
  \<open>resolve\<close> has been called once then and not at all before, also when more than \<open>n\<close>
  events arrive; with no checks the promise is resolved at once and no listener is
  registered. In a run: in every state from the start of the checks on, the listener
  holds the number of finished events so far and the number of checks, which is the size
  of the \<open>checks\<close> map; there are never more finished events than checks; the promise is
  resolved exactly when the two numbers are equal, by exactly one call of \<open>resolve\<close> if
  there are checks and by none if there are not; and a run that has finished has as many
  finished events as checks.
\<close>

theorem completion_tracker:
  "(finished_listener s = None \<longrightarrow>
      (let n = length (checks s); s' = (on_CHECK_FINISHED ^^ m) (allChecksFinished s)
       in allFinished s' = Some (if n \<le> m then Resolved else Pending) \<and>
          resolve_calls s' = resolve_calls s + (if 0 < n \<and> n \<le> m then 1 else 0) \<and>
          finished_listener s' = (if n = 0 then None else Some \<lparr> count = m, numChecks = n \<rparr>))) \<and>
   (let st = exec env (constructor account t v) as;
        n = length (checks st); k = length (filter is_finished (events st))
    in (phase st = Running \<or> phase st = TerminalSuccess \<longrightarrow>
          k \<le> n \<and>
          finished_listener st = (if n = 0 then None else Some \<lparr> count = k, numChecks = n \<rparr>) \<and>
          allFinished st = Some (if k = n then Resolved else Pending) \<and>
          resolve_calls st = (if 0 < n \<and> k = n then 1 else 0)) \<and>
       (phase st = TerminalSuccess \<longrightarrow> k = n) \<and>
       (phase st \<noteq> Running \<and> phase st \<noteq> TerminalSuccess \<longrightarrow>
          allFinished st = None \<and> resolve_calls st = 0))"
proof -
  have 1: "finished_listener s = None \<longrightarrow>
      (let n = length (checks s); s' = (on_CHECK_FINISHED ^^ m) (allChecksFinished s)
       in allFinished s' = Some (if n \<le> m then Resolved else Pending) \<and>
          resolve_calls s' = resolve_calls s + (if 0 < n \<and> n \<le> m then 1 else 0) \<and>
          finished_listener s' = (if n = 0 then None else Some \<lparr> count = m, numChecks = n \<rparr>))"
  proof (intro impI)
    assume none: "finished_listener s = None"
    show "let n = length (checks s); s' = (on_CHECK_FINISHED ^^ m) (allChecksFinished s)
       in allFinished s' = Some (if n \<le> m then Resolved else Pending) \<and>
          resolve_calls s' = resolve_calls s + (if 0 < n \<and> n \<le> m then 1 else 0) \<and>
          finished_listener s' = (if n = 0 then None else Some \<lparr> count = m, numChecks = n \<rparr>)"
    proof (cases "checks s = []")
      case True
      have idle: "on_CHECK_FINISHED x = x" if "finished_listener x = None" for x :: "'a state"
        using that by (simp add: on_CHECK_FINISHED_def)
      have "finished_listener (allChecksFinished s) = None"
        using none True by (simp add: allChecksFinished_def)
      then have "(on_CHECK_FINISHED ^^ m) (allChecksFinished s) = allChecksFinished s"
        by (induction m) (simp_all add: idle)
      with True none show ?thesis by (simp add: allChecksFinished_def Let_def)
    next
      case False
      then have n: "0 < length (checks s)" by simp
      have l: "finished_listener (allChecksFinished s)
          = Some \<lparr> count = 0, numChecks = length (checks s) \<rparr>"
        and p: "allFinished (allChecksFinished s)
          = Some (if length (checks s) \<le> 0 then Resolved else Pending)"
        and r: "resolve_calls (allChecksFinished s) = resolve_calls s"
        using False by (simp_all add: allChecksFinished_def Let_def)
      from on_CHECK_FINISHED_counts [OF l p n, of m] r n show ?thesis
        by (simp add: Let_def)
    qed
  qed
  define st where "st = exec env (constructor account t v) as"
  have i: "run_inv st" unfolding st_def by (rule run_inv_reachable)
  have 2: "phase st = Running \<or> phase st = TerminalSuccess \<longrightarrow>
          length (filter is_finished (events st)) \<le> length (checks st) \<and>
          finished_listener st =
            (if length (checks st) = 0 then None
             else Some \<lparr> count = length (filter is_finished (events st)),
                         numChecks = length (checks st) \<rparr>) \<and>
          allFinished st =
            Some (if length (filter is_finished (events st)) = length (checks st)
                  then Resolved else Pending) \<and>
          resolve_calls st =
            (if 0 < length (checks st) \<and>
                length (filter is_finished (events st)) = length (checks st) then 1 else 0)"
    using tracker_run(1-4) [OF i] by simp
  have 3: "phase st = TerminalSuccess \<longrightarrow>
      length (filter is_finished (events st)) = length (checks st)"
    using tracker_run(5) [OF i] by simp
  have 4: "phase st \<noteq> Running \<and> phase st \<noteq> TerminalSuccess \<longrightarrow>
          allFinished st = None \<and> resolve_calls st = 0"
    using run_inv_unarmed_events [OF i] by (simp add: unarmed_def)
  show ?thesis
    unfolding st_def [symmetric] Let_def
    using 1 [unfolded Let_def] 2 3 4 by (intro conjI) assumption+
qed

theorem completion_tracker_witness:
  "finished_listener (example_start\<lparr> checks := checks running \<rparr>) = None \<and>
   length (checks running) = 2 \<and>
   allFinished ((on_CHECK_FINISHED ^^ 1)
      (allChecksFinished (example_start\<lparr> checks := checks running \<rparr>))) = Some Pending \<and>
   allFinished ((on_CHECK_FINISHED ^^ 3)
      (allChecksFinished (example_start\<lparr> checks := checks running \<rparr>))) = Some Resolved \<and>
   resolve_calls ((on_CHECK_FINISHED ^^ 3)
      (allChecksFinished (example_start\<lparr> checks := checks running \<rparr>))) = 1 \<and>
   phase (exec example_env example_start
      [RunConnect, RunSchedule, Deliver ''a'' ''run-end'' failed_result, Dequeue, Resume]) = Running \<and>
   length (filter is_finished (events (exec example_env example_start
      [RunConnect, RunSchedule, Deliver ''a'' ''run-end'' failed_result, Dequeue, Resume]))) = 1 \<and>
   allFinished (exec example_env example_start
      [RunConnect, RunSchedule, Deliver ''a'' ''run-end'' failed_result, Dequeue, Resume])
     = Some Pending \<and>
   resolve_calls (exec example_env example_start
      [RunConnect, RunSchedule, Deliver ''a'' ''run-end'' failed_result, Dequeue, Resume]) = 0 \<and>
   phase (exec example_env example_start
      [RunConnect, RunSchedule, Deliver ''a'' ''run-end'' failed_result, Dequeue, Resume,
       Fire 1, RunFinish]) = TerminalSuccess \<and>
   length (filter is_finished (events (exec example_env example_start
      [RunConnect, RunSchedule, Deliver ''a'' ''run-end'' failed_result, Dequeue, Resume,
       Fire 1, RunFinish]))) = 2 \<and>
   allFinished (exec example_env example_start
      [RunConnect, RunSchedule, Deliver ''a'' ''run-end'' failed_result, Dequeue, Resume,
       Fire 1, RunFinish]) = Some Resolved \<and>
   resolve_calls (exec example_env example_start
      [RunConnect, RunSchedule, Deliver ''a'' ''run-end'' failed_result, Dequeue, Resume,
       Fire 1, RunFinish]) = 1 \<and>
   finished_listener (exec example_env example_start
      [RunConnect, RunSchedule, Deliver ''a'' ''run-end'' failed_result, Dequeue, Resume,
       Fire 1, RunFinish]) = Some \<lparr> count = 2, numChecks = 2 \<rparr>"
proof -
  define s where "s = example_start\<lparr> checks := checks running \<rparr>"
  define half where "half = exec example_env example_start
      [RunConnect, RunSchedule, Deliver ''a'' ''run-end'' failed_result, Dequeue, Resume]"
  define full where "full = exec example_env example_start
      [RunConnect, RunSchedule, Deliver ''a'' ''run-end'' failed_result, Dequeue, Resume,
       Fire 1, RunFinish]"
  have s0: "constructor ''account'' 300 False = example_start"
    by (simp add: example_start_def)
  have a: "finished_listener s = None" "length (checks running) = 2" "length (checks s) = 2"
    "resolve_calls s = 0"
    unfolding s_def by code_simp+
  have b: "phase half = Running" "length (filter is_finished (events half)) = 1"
    "length (checks half) = 2"
    unfolding half_def by code_simp+
  have c: "phase full = TerminalSuccess" "length (filter is_finished (events full)) = 2"
    "length (checks full) = 2"
    unfolding full_def by code_simp+
  note t1 = completion_tracker [where s = s and m = 1 and env = example_env
      and account = "''account''" and t = 300 and v = False
      and as = "[RunConnect, RunSchedule, Deliver ''a'' ''run-end'' failed_result, Dequeue, Resume]",
      unfolded Let_def s0, folded half_def]
  note t3 = completion_tracker [where s = s and m = 3 and env = example_env
      and account = "''account''" and t = 300 and v = False
      and as = "[RunConnect, RunSchedule, Deliver ''a'' ''run-end'' failed_result, Dequeue, Resume,
       Fire 1, RunFinish]",
      unfolded Let_def s0, folded full_def]
  from t1 a b have d: "allFinished ((on_CHECK_FINISHED ^^ 1) (allChecksFinished s)) = Some Pending \<and>
     allFinished half = Some Pending \<and> resolve_calls half = 0"
    by simp
  from t3 a c have e: "allFinished ((on_CHECK_FINISHED ^^ 3) (allChecksFinished s)) = Some Resolved \<and>
     resolve_calls ((on_CHECK_FINISHED ^^ 3) (allChecksFinished s)) = 1 \<and>
     allFinished full = Some Resolved \<and> resolve_calls full = 1 \<and>
     finished_listener full = Some \<lparr> count = 2, numChecks = 2 \<rparr>"
    by simp
  from a b c d e show ?thesis
    unfolding s_def [symmetric] half_def [symmetric] full_def [symmetric] by blast
qed

subsection \<open>The checks that have ended\<close>






subsection \<open>The scheduling-delay monitor\<close>

lemma run_inv_monitor:
  assumes i: "run_inv st"
  shows "sched_pending st \<longleftrightarrow>
     length (filter is_inprogress (events st)) < length (checks st) \<and>
     MAX_SCHEDULING_DELAY_EXCEEDED \<notin> set (events st)"
proof -
  from run_inv_cases [OF i] show ?thesis
  proof
    assume "unarmed st \<and> phase st \<noteq> Running \<and> phase st \<noteq> TerminalSuccess"
    then show ?thesis by (simp add: unarmed_def sched_pending_def)
  next
    assume "armed st \<and> (phase st = Running \<or> phase st = TerminalSuccess)"
    then have "monitor_ok st" by (simp add: armed_def)
    then show ?thesis by (cases "checks st = []") (simp_all add: monitor_ok_def Let_def)
  qed
qed

lemma all_inprogress:
  assumes i: "run_inv st"
    and s: "fst ` set (checks st) \<subseteq> set (inprogress_ids (events st))"
  shows "\<not> sched_pending st"
proof -
  from run_inv_terminal_ok [OF i] have d: "distinct (map fst (checks st))"
    by (simp add: terminal_ok_iff)
  then have "length (checks st) = card (set (map fst (checks st)))"
    using distinct_card [of "map fst (checks st)"] by simp
  also have "\<dots> \<le> card (set (inprogress_ids (events st)))"
    using s by (simp add: card_mono)
  also have "\<dots> \<le> length (inprogress_ids (events st))" by (rule card_length)
  finally have "length (checks st) \<le> length (filter is_inprogress (events st))"
    by (simp add: length_inprogress_ids)
  with run_inv_monitor [OF i] show ?thesis by simp
qed

lemma fire_not_pending:
  assumes n: "\<not> sched_pending st"
    and m: "MAX_SCHEDULING_DELAY_EXCEEDED \<in> set (events (fire h st))"
  shows "MAX_SCHEDULING_DELAY_EXCEEDED \<in> set (events st)"
proof (cases "find (\<lambda>t. timer_id t = h) (timers st)")
  case None
  with m show ?thesis by (simp add: fire_absent)
next
  case (Some tm)
  from find_timer [OF Some] n have "callback tm \<noteq> SchedulingDelayExceeded"
    by (auto simp: sched_pending_def)
  then obtain i c where cb: "callback tm = CheckTimeout i c" by (cases "callback tm") simp_all
  from m show ?thesis unfolding fire_check_any [OF Some cb] by simp
qed

lemma fire_pending:
  assumes i: "run_inv st"
    and f: "find (\<lambda>t. timer_id t = h) (timers st) = Some tm"
    and cb: "callback tm = SchedulingDelayExceeded"
  shows "events (fire h st) = events st @ [MAX_SCHEDULING_DELAY_EXCEEDED]"
    and "\<not> sched_pending (fire h st)"
    and "schedulingDelayExceededTimeout (fire h st) = None"
    and "length (filter is_inprogress (events st)) < length (checks st)"
    and "MAX_SCHEDULING_DELAY_EXCEEDED \<notin> set (events st)"
proof -
  note tk = run_inv_timers_ok [OF i]
  from find_timer [OF f] have t: "tm \<in> set (timers st)" and h: "timer_id tm = h" by simp_all
  from tk t cb h have field: "schedulingDelayExceededTimeout st = Some h"
    by (auto simp: timers_ok_iff)
  show "events (fire h st) = events st @ [MAX_SCHEDULING_DELAY_EXCEEDED]"
    unfolding fire_sched [OF f cb] by simp
  show "\<not> sched_pending (fire h st)"
    unfolding fire_sched [OF f cb] using sched_pending_filter [OF tk field]
    by (simp add: sched_pending_def)
  show "schedulingDelayExceededTimeout (fire h st) = None"
    unfolding fire_sched [OF f cb] by simp
  from t cb have "sched_pending st" by (auto simp: sched_pending_def)
  with run_inv_monitor [OF i]
  show "length (filter is_inprogress (events st)) < length (checks st)"
    and "MAX_SCHEDULING_DELAY_EXCEEDED \<notin> set (events st)" by simp_all
qed

text \<open>
  C7. In every state of a run, the scheduling-delay timer is pending exactly when fewer
  in-progress events than there are checks have been emitted, each event counted, and
  the event \<^verbatim>\<open>MAX_SCHEDULING_DELAY_EXCEEDED\<close> has not been emitted; so it is not pending
  once every check has reached in-progress. When the timer fires, the event is emitted,
  the handle is reset and no such timer is left; it fires only with fewer in-progress
  events than checks. When it is not pending, no firing of a timer emits the event.
  Arming with no checks changes nothing; with checks it adds one timer of 20000
  milliseconds and a listener counting from zero up to the number of checks.
\<close>

theorem delay_monitor:
  "(let st = exec env (constructor account t v) as;
        n = length (checks st); k = length (filter is_inprogress (events st))
    in (sched_pending st \<longleftrightarrow> k < n \<and> MAX_SCHEDULING_DELAY_EXCEEDED \<notin> set (events st)) \<and>
       k = length (inprogress_ids (events st)) \<and>
       (fst ` set (checks st) \<subseteq> set (inprogress_ids (events st)) \<longrightarrow> \<not> sched_pending st) \<and>
       (find (\<lambda>t. timer_id t = h) (timers st) = Some tm \<and>
        callback tm = SchedulingDelayExceeded \<longrightarrow>
          events (fire h st) = events st @ [MAX_SCHEDULING_DELAY_EXCEEDED] \<and>
          \<not> sched_pending (fire h st) \<and>
          schedulingDelayExceededTimeout (fire h st) = None \<and>
          k < n \<and> MAX_SCHEDULING_DELAY_EXCEEDED \<notin> set (events st))) \<and>
   (\<not> sched_pending s \<and> MAX_SCHEDULING_DELAY_EXCEEDED \<in> set (events (fire h s)) \<longrightarrow>
      MAX_SCHEDULING_DELAY_EXCEEDED \<in> set (events s)) \<and>
   (checks s = [] \<longrightarrow> startSchedulingDelayTimeout s = s) \<and>
   (checks s \<noteq> [] \<longrightarrow>
      timers (startSchedulingDelayTimeout s)
        = timers s @ [\<lparr> timer_id = next_timer s, delay_ms = 20000,
                         callback = SchedulingDelayExceeded \<rparr>] \<and>
      schedulingDelayExceededTimeout (startSchedulingDelayTimeout s) = Some (next_timer s) \<and>
      inprogress_listener (startSchedulingDelayTimeout s)
        = Some \<lparr> count = 0, numChecks = length (checks s) \<rparr>)"
proof -
  define st where "st = exec env (constructor account t v) as"
  have i: "run_inv st" unfolding st_def by (rule run_inv_reachable)
  note 1 = run_inv_monitor [OF i]
  have 2: "length (filter is_inprogress (events st)) = length (inprogress_ids (events st))"
    by (simp add: length_inprogress_ids)
  have 3: "fst ` set (checks st) \<subseteq> set (inprogress_ids (events st)) \<longrightarrow> \<not> sched_pending st"
    using all_inprogress [OF i] by blast
  have 4: "find (\<lambda>t. timer_id t = h) (timers st) = Some tm \<and>
        callback tm = SchedulingDelayExceeded \<longrightarrow>
          events (fire h st) = events st @ [MAX_SCHEDULING_DELAY_EXCEEDED] \<and>
          \<not> sched_pending (fire h st) \<and>
          schedulingDelayExceededTimeout (fire h st) = None \<and>
          length (filter is_inprogress (events st)) < length (checks st) \<and>
          MAX_SCHEDULING_DELAY_EXCEEDED \<notin> set (events st)"
    using fire_pending [OF i, of h tm] by blast
  have 5: "\<not> sched_pending s \<and> MAX_SCHEDULING_DELAY_EXCEEDED \<in> set (events (fire h s)) \<longrightarrow>
      MAX_SCHEDULING_DELAY_EXCEEDED \<in> set (events s)"
    using fire_not_pending [of s h] by blast
  have 6: "checks s = [] \<longrightarrow> startSchedulingDelayTimeout s = s"
    by (simp add: startSchedulingDelayTimeout_def)
  have 7: "checks s \<noteq> [] \<longrightarrow>
      timers (startSchedulingDelayTimeout s)
        = timers s @ [\<lparr> timer_id = next_timer s, delay_ms = 20000,
                         callback = SchedulingDelayExceeded \<rparr>] \<and>
      schedulingDelayExceededTimeout (startSchedulingDelayTimeout s) = Some (next_timer s) \<and>
      inprogress_listener (startSchedulingDelayTimeout s)
        = Some \<lparr> count = 0, numChecks = length (checks s) \<rparr>"
    by (simp add: startSchedulingDelayTimeout_def setTimeout_def Let_def
          DEFAULT_SCHEDULING_DELAY_EXCEEDED_MS_def)
  show ?thesis
    unfolding st_def [symmetric] Let_def
    by (rule conjI [OF conjI [OF 1 conjI [OF 2 conjI [OF 3 4]]] conjI [OF 5 conjI [OF 6 7]]])
qed

theorem delay_monitor_witness:
  "find (\<lambda>t. timer_id t = 2) (timers (exec example_env example_start
      [RunConnect, RunSchedule, Deliver ''a'' ''run-start'' JNull, Dequeue]))
     = Some \<lparr> timer_id = 2, delay_ms = 20000, callback = SchedulingDelayExceeded \<rparr> \<and>
   inprogress_ids (events (exec example_env example_start
      [RunConnect, RunSchedule, Deliver ''a'' ''run-start'' JNull, Dequeue])) = [''a''] \<and>
   events (fire 2 (exec example_env example_start
      [RunConnect, RunSchedule, Deliver ''a'' ''run-start'' JNull, Dequeue]))
     = events (exec example_env example_start
         [RunConnect, RunSchedule, Deliver ''a'' ''run-start'' JNull, Dequeue])
       @ [MAX_SCHEDULING_DELAY_EXCEEDED] \<and>
   \<not> sched_pending (fire 2 (exec example_env example_start
      [RunConnect, RunSchedule, Deliver ''a'' ''run-start'' JNull, Dequeue])) \<and>
   map fst (checks (exec example_env example_start
      [RunConnect, RunSchedule, Deliver ''a'' ''run-start'' JNull, Dequeue,
       Deliver ''b'' ''run-start'' JNull, Dequeue])) = [''a'', ''b''] \<and>
   inprogress_ids (events (exec example_env example_start
      [RunConnect, RunSchedule, Deliver ''a'' ''run-start'' JNull, Dequeue,
       Deliver ''b'' ''run-start'' JNull, Dequeue])) = [''a'', ''b''] \<and>
   \<not> sched_pending (exec example_env example_start
      [RunConnect, RunSchedule, Deliver ''a'' ''run-start'' JNull, Dequeue,
       Deliver ''b'' ''run-start'' JNull, Dequeue]) \<and>
   map timer_id (timers (exec example_env example_start
      [RunConnect, RunSchedule, Deliver ''a'' ''run-start'' JNull, Dequeue,
       Deliver ''b'' ''run-start'' JNull, Dequeue])) = [0, 1] \<and>
   checks example_start = [] \<and> startSchedulingDelayTimeout example_start = example_start \<and>
   map timer_id (timers (startSchedulingDelayTimeout
      (example_start\<lparr> checks := checks running \<rparr>))) = [0]"
proof -
  define one where "one = exec example_env example_start
      [RunConnect, RunSchedule, Deliver ''a'' ''run-start'' JNull, Dequeue]"
  define both where "both = exec example_env example_start
      [RunConnect, RunSchedule, Deliver ''a'' ''run-start'' JNull, Dequeue,
       Deliver ''b'' ''run-start'' JNull, Dequeue]"
  define s where "s = example_start\<lparr> checks := checks running \<rparr>"
  have s0: "constructor ''account'' 300 False = example_start"
    by (simp add: example_start_def)
  have a: "find (\<lambda>t. timer_id t = 2) (timers one)
     = Some \<lparr> timer_id = 2, delay_ms = 20000, callback = SchedulingDelayExceeded \<rparr>"
    "inprogress_ids (events one) = [''a'']"
    unfolding one_def by code_simp+
  have b: "map fst (checks both) = [''a'', ''b'']"
    "inprogress_ids (events both) = [''a'', ''b'']"
    "map timer_id (timers both) = [0, 1]"
    unfolding both_def by code_simp+
  have c: "checks example_start = []" "checks s \<noteq> []" "timers s = []" "next_timer s = 0"
    unfolding s_def by code_simp+
  note t1 = delay_monitor [where env = example_env and account = "''account''" and t = 300
      and v = False and h = 2 and s = example_start
      and tm = "\<lparr> timer_id = 2, delay_ms = 20000, callback = SchedulingDelayExceeded \<rparr>"
      and as = "[RunConnect, RunSchedule, Deliver ''a'' ''run-start'' JNull, Dequeue]",
      unfolded Let_def s0, folded one_def]
  note t2 = delay_monitor [where env = example_env and account = "''account''" and t = 300
      and v = False and h = 2 and s = s
      and tm = "\<lparr> timer_id = 2, delay_ms = 20000, callback = SchedulingDelayExceeded \<rparr>"
      and as = "[RunConnect, RunSchedule, Deliver ''a'' ''run-start'' JNull, Dequeue,
        Deliver ''b'' ''run-start'' JNull, Dequeue]",
      unfolded Let_def s0, folded both_def]
  have cb: "callback \<lparr> timer_id = 2, delay_ms = 20000, callback = SchedulingDelayExceeded \<rparr>
      = (SchedulingDelayExceeded :: string timer_callback)" by simp
  from t1 a(1) cb c(1)
  have d: "events (fire 2 one) = events one @ [MAX_SCHEDULING_DELAY_EXCEEDED] \<and>
     \<not> sched_pending (fire 2 one) \<and> startSchedulingDelayTimeout example_start = example_start"
    by blast
  have sub: "fst ` set (checks both) \<subseteq> set (inprogress_ids (events both))"
    by (simp only: set_map [symmetric] b)
  from t2 sub have e1: "\<not> sched_pending both" by blast
  from t2 c(2) have "timers (startSchedulingDelayTimeout s)
        = timers s @ [\<lparr> timer_id = next_timer s, delay_ms = 20000,
                         callback = SchedulingDelayExceeded \<rparr>]" by blast
  with c have e2: "map timer_id (timers (startSchedulingDelayTimeout s)) = [0]" by simp
  note e = e1 e2
  from a b c d e show ?thesis
    unfolding one_def [symmetric] both_def [symmetric] s_def [symmetric] by blast
qed

text \<open>
  The listener counts in-progress events, not checks. In the example run with the
  \<^verbatim>\<open>run-start\<close> message of check \<open>a\<close> delivered twice, the count reaches the number of
  checks although \<open>b\<close> has not reached in-progress: the timer is cancelled, and when the
  delay has passed nothing is emitted.
\<close>

theorem delay_monitor_counterexample:
  "map fst (checks (exec example_env example_start
      [RunConnect, RunSchedule, Deliver ''a'' ''run-start'' JNull, Dequeue,
       Deliver ''a'' ''run-start'' JNull, Dequeue])) = [''a'', ''b''] \<and>
   inprogress_ids (events (exec example_env example_start
      [RunConnect, RunSchedule, Deliver ''a'' ''run-start'' JNull, Dequeue,
       Deliver ''a'' ''run-start'' JNull, Dequeue])) = [''a'', ''a''] \<and>
   remdups (inprogress_ids (events (exec example_env example_start
      [RunConnect, RunSchedule, Deliver ''a'' ''run-start'' JNull, Dequeue,
       Deliver ''a'' ''run-start'' JNull, Dequeue]))) = [''a''] \<and>
   inprogress_listener (exec example_env example_start
      [RunConnect, RunSchedule, Deliver ''a'' ''run-start'' JNull, Dequeue,
       Deliver ''a'' ''run-start'' JNull, Dequeue]) = Some \<lparr> count = 2, numChecks = 2 \<rparr> \<and>
   map callback (timers (exec example_env example_start
      [RunConnect, RunSchedule, Deliver ''a'' ''run-start'' JNull, Dequeue,
       Deliver ''a'' ''run-start'' JNull, Dequeue]))
     = [CheckTimeout ''a'' ''check-a'', CheckTimeout ''b'' ''check-b''] \<and>
   schedulingDelayExceededTimeout (exec example_env example_start
      [RunConnect, RunSchedule, Deliver ''a'' ''run-start'' JNull, Dequeue,
       Deliver ''a'' ''run-start'' JNull, Dequeue]) = Some 2 \<and>
   fire 2 (exec example_env example_start
      [RunConnect, RunSchedule, Deliver ''a'' ''run-start'' JNull, Dequeue,
       Deliver ''a'' ''run-start'' JNull, Dequeue])
     = exec example_env example_start
      [RunConnect, RunSchedule, Deliver ''a'' ''run-start'' JNull, Dequeue,
       Deliver ''a'' ''run-start'' JNull, Dequeue] \<and>
   events (exec example_env example_start
      [RunConnect, RunSchedule, Deliver ''a'' ''run-start'' JNull, Dequeue,
       Deliver ''a'' ''run-start'' JNull, Dequeue])
     = events running @ [CHECK_INPROGRESS ''check-a'' ''a'', CHECK_INPROGRESS ''check-a'' ''a'']"
  by code_simp

end
